theory Spec2Isabelle
  imports Main "HOL-Library.Word" "HOL-Library.Multiset"
begin

section \<open>Shared conventions\<close>

text \<open>
  Both heaps of the repository (\<^verbatim>\<open>Bheap.hpp\<close> and \<^verbatim>\<open>FibHeap.h\<close>) are graphs of nodes
  held by \<^verbatim>\<open>std::shared_ptr\<close>. A node pointer is an optional address (\<open>None\<close> is
  \<^verbatim>\<open>nullptr\<close>), the memory is an explicit store from addresses to node records, and
  \<^verbatim>\<open>allocate_shared\<close> takes the next unused address. A shared pointer never dangles, so
  the store is a total function; the only way to go wrong on a shared pointer is to
  dereference \<^verbatim>\<open>nullptr\<close>, which the model reports as the error \<open>Null_deref\<close> (undefined
  behaviour in C++). A thrown \<^verbatim>\<open>std::out_of_range\<close> is the error \<open>Out_of_range\<close> with its
  message. An unchecked \<^verbatim>\<open>operator[]\<close> beyond the end of a vector is \<open>Out_of_bounds\<close>.
  A C++ reference, unlike a shared pointer, can outlive the variable it designates: a
  method that returns a reference to one of its own local variables returns nothing that
  can be used, which the model reports as the error \<open>Dangling_reference\<close> (undefined
  behaviour in C++).

  Loops and the recursion of \<^verbatim>\<open>cascading_cut\<close> follow pointers and need not terminate on a
  cyclic structure. Each of them is a function with a fuel argument: the result \<open>None\<close>
  means that the fuel ran out, and a run that returns \<open>None\<close> for every amount of fuel
  does not terminate.

  \<^verbatim>\<open>size_t\<close> and \<^verbatim>\<open>unsigned long long\<close> are 64-bit words.
\<close>

type_synonym addr = nat
type_synonym ptr = "addr option"

datatype error = Out_of_range string | Null_deref | Out_of_bounds | Dangling_reference

section \<open>Binomial heap (\<^verbatim>\<open>Bheap.hpp\<close>)\<close>

subsection \<open>Nodes, heap objects and memory\<close>

record 'k bnode =
  bn_p :: ptr
  bn_child :: ptr
  bn_sibling :: ptr
  bn_degree :: "64 word"
  bn_key :: 'k

type_synonym 'k bmem = "addr \<Rightarrow> 'k bnode"

text \<open>The members of \<^verbatim>\<open>Bheap<T>\<close>: \<^verbatim>\<open>head\<close> and \<^verbatim>\<open>_size\<close>.\<close>

record bheap =
  b_head :: ptr
  b_size :: "64 word"

text \<open>The memory shared by all heap objects: the nodes and the next unused address.\<close>

record 'k bworld =
  b_nodes :: "'k bmem"
  b_next :: addr

definition bheap_new :: bheap where
  "bheap_new = \<lparr>b_head = None, b_size = 0\<rparr>"

definition bn_set_p :: "addr \<Rightarrow> ptr \<Rightarrow> 'k bmem \<Rightarrow> 'k bmem" where
  "bn_set_p a v m = m(a := (m a)\<lparr>bn_p := v\<rparr>)"

definition bn_set_child :: "addr \<Rightarrow> ptr \<Rightarrow> 'k bmem \<Rightarrow> 'k bmem" where
  "bn_set_child a v m = m(a := (m a)\<lparr>bn_child := v\<rparr>)"

definition bn_set_sibling :: "addr \<Rightarrow> ptr \<Rightarrow> 'k bmem \<Rightarrow> 'k bmem" where
  "bn_set_sibling a v m = m(a := (m a)\<lparr>bn_sibling := v\<rparr>)"

definition bn_set_degree :: "addr \<Rightarrow> 64 word \<Rightarrow> 'k bmem \<Rightarrow> 'k bmem" where
  "bn_set_degree a v m = m(a := (m a)\<lparr>bn_degree := v\<rparr>)"

definition bn_set_key :: "addr \<Rightarrow> 'k \<Rightarrow> 'k bmem \<Rightarrow> 'k bmem" where
  "bn_set_key a v m = m(a := (m a)\<lparr>bn_key := v\<rparr>)"

subsection \<open>Private methods\<close>

text \<open>
  \<^verbatim>\<open>link_nodes(y, z)\<close>: \<^verbatim>\<open>y->p = z; y->sibling = z->child; z->child = y; z->degree++\<close>.
  Both arguments are non-null at every call.
\<close>

definition link_nodes :: "addr \<Rightarrow> addr \<Rightarrow> 'k bmem \<Rightarrow> 'k bmem" where
  "link_nodes y z m =
     (let m1 = bn_set_p y (Some z) m;
          m2 = bn_set_sibling y (bn_child (m1 z)) m1;
          m3 = bn_set_child z (Some y) m2
      in bn_set_degree z (bn_degree (m3 z) + 1) m3)"

text \<open>
  The inner loop of \<^verbatim>\<open>merge_heads\<close>: advance \<^verbatim>\<open>insert_point\<close> while its sibling exists and
  has a degree below the degree \<open>d\<close> of the node to insert.
\<close>

fun merge_find_place :: "nat \<Rightarrow> 'k bmem \<Rightarrow> addr \<Rightarrow> 64 word \<Rightarrow> addr option" where
  "merge_find_place 0 m ip d = None"
| "merge_find_place (Suc n) m ip d =
     (case bn_sibling (m ip) of
        None \<Rightarrow> Some ip
      | Some s \<Rightarrow> if bn_degree (m s) < d then merge_find_place n m s d else Some ip)"

text \<open>The outer loop of \<^verbatim>\<open>merge_heads\<close>: \<^verbatim>\<open>while (inserted)\<close>.\<close>

fun merge_loop :: "nat \<Rightarrow> 'k bmem \<Rightarrow> addr \<Rightarrow> ptr \<Rightarrow> 'k bmem option" where
  "merge_loop 0 m ip inserted = None"
| "merge_loop (Suc n) m ip inserted =
     (case inserted of
        None \<Rightarrow> Some m
      | Some i \<Rightarrow>
          (case merge_find_place (Suc n) m ip (bn_degree (m i)) of
             None \<Rightarrow> None
           | Some ip' \<Rightarrow>
               (let tmp = bn_sibling (m ip');
                    m1 = bn_set_sibling ip' (Some i) m;
                    next_inserted = bn_sibling (m1 i);
                    m2 = bn_set_sibling i tmp m1
                in merge_loop n m2 ip' next_inserted)))"

text \<open>
  \<^verbatim>\<open>merge_heads(h1, h2)\<close>. The source compares \<^verbatim>\<open>head->degree\<close>, the member, with
  \<^verbatim>\<open>h2->degree\<close>; the only call passes the member \<^verbatim>\<open>head\<close> as \<open>h1\<close>, which is kept as a
  separate argument here.
\<close>

definition merge_heads :: "nat \<Rightarrow> addr \<Rightarrow> addr \<Rightarrow> addr \<Rightarrow> 'k bmem \<Rightarrow> (addr \<times> 'k bmem) option" where
  "merge_heads n hp h1 h2 m =
     (let (new_head, inserted) =
            (if bn_degree (m hp) > bn_degree (m h2) then (h2, h1) else (h1, h2))
      in case merge_loop n m new_head (Some inserted) of
           None \<Rightarrow> None
         | Some m' \<Rightarrow> Some (new_head, m'))"

text \<open>
  The scan of \<^verbatim>\<open>add_heap_head\<close> over the merged chain, with the local variables
  \<^verbatim>\<open>new_head\<close>, \<^verbatim>\<open>prev_x\<close>, \<^verbatim>\<open>x\<close> and \<^verbatim>\<open>next_x\<close>.
\<close>

fun add_heap_head_loop ::
  "nat \<Rightarrow> ('k::linorder) bmem \<Rightarrow> addr \<Rightarrow> ptr \<Rightarrow> addr \<Rightarrow> ptr \<Rightarrow> (addr \<times> 'k bmem) option" where
  "add_heap_head_loop 0 m new_head prev_x x next_x = None"
| "add_heap_head_loop (Suc n) m new_head prev_x x next_x =
     (case next_x of
        None \<Rightarrow> Some (new_head, m)
      | Some nx \<Rightarrow>
          if bn_degree (m x) \<noteq> bn_degree (m nx)
             \<or> (case bn_sibling (m nx) of
                   None \<Rightarrow> False
                 | Some s \<Rightarrow> bn_degree (m s) = bn_degree (m x))
          then add_heap_head_loop n m new_head (Some x) nx (bn_sibling (m nx))
          else if bn_key (m x) < bn_key (m nx)
          then (let m1 = bn_set_sibling x (bn_sibling (m nx)) m;
                    m2 = link_nodes nx x m1
                in add_heap_head_loop n m2 new_head prev_x x (bn_sibling (m2 x)))
          else (let (new_head', m1) =
                      (case prev_x of
                         None \<Rightarrow> (nx, m)
                       | Some pv \<Rightarrow> (new_head, bn_set_sibling pv (Some nx) m));
                    m2 = link_nodes x nx m1
                in add_heap_head_loop n m2 new_head' prev_x nx (bn_sibling (m2 nx))))"

text \<open>\<^verbatim>\<open>add_heap_head(h2head)\<close> on the heap object \<open>h\<close>.\<close>

definition add_heap_head ::
  "nat \<Rightarrow> ptr \<Rightarrow> bheap \<Rightarrow> ('k::linorder) bmem \<Rightarrow> (bheap \<times> 'k bmem) option" where
  "add_heap_head n h2head h m =
     (case h2head of
        None \<Rightarrow> Some (h, m)
      | Some h2 \<Rightarrow>
          (case b_head h of
             None \<Rightarrow> Some (h\<lparr>b_head := Some h2\<rparr>, m)
           | Some hp \<Rightarrow>
               (case merge_heads n hp hp h2 m of
                  None \<Rightarrow> None
                | Some (new_head, m1) \<Rightarrow>
                    (case add_heap_head_loop n m1 new_head None new_head
                            (bn_sibling (m1 new_head)) of
                       None \<Rightarrow> None
                     | Some (new_head', m2) \<Rightarrow> Some (h\<lparr>b_head := Some new_head'\<rparr>, m2)))))"

text \<open>
  \<^verbatim>\<open>get_min_node()\<close>: the loop over the root chain, then the method, which dereferences
  \<^verbatim>\<open>head\<close> without a check. Its return type is \<^verbatim>\<open>NodePtr &\<close> and it ends with
  \<^verbatim>\<open>return min;\<close> where \<^verbatim>\<open>min\<close> is a local variable: when the loop has ended, what the
  caller receives is a reference to a variable that no longer exists. The pointer the loop
  has found is lost with it, and the result of the method is \<open>Dangling_reference\<close>.
\<close>

fun get_min_node_loop :: "nat \<Rightarrow> ('k::linorder) bmem \<Rightarrow> ptr \<Rightarrow> addr \<Rightarrow> addr option" where
  "get_min_node_loop 0 m x mn = None"
| "get_min_node_loop (Suc n) m x mn =
     (case x of
        None \<Rightarrow> Some mn
      | Some xa \<Rightarrow>
          get_min_node_loop n m (bn_sibling (m xa))
            (if bn_key (m xa) < bn_key (m mn) then xa else mn))"

definition get_min_node :: "nat \<Rightarrow> bheap \<Rightarrow> ('k::linorder) bmem \<Rightarrow> (error + addr) option" where
  "get_min_node n h m =
     (case b_head h of
        None \<Rightarrow> Some (Inl Null_deref)
      | Some hp \<Rightarrow>
          (case get_min_node_loop n m (bn_sibling (m hp)) hp of
             None \<Rightarrow> None
           | Some mn \<Rightarrow> Some (Inl Dangling_reference)))"

subsection \<open>Public methods\<close>

definition bh_size :: "bheap \<Rightarrow> 64 word" where
  "bh_size h = b_size h"

text \<open>
  \<^verbatim>\<open>add_heap(H2)\<close> is \<^verbatim>\<open>add_heap_head(H2.head)\<close> and nothing else: neither \<^verbatim>\<open>_size\<close> nor
  any member of \<open>H2\<close> is written.
\<close>

definition bh_add_heap ::
  "nat \<Rightarrow> bheap \<Rightarrow> bheap \<Rightarrow> ('k::linorder) bworld \<Rightarrow> (bheap \<times> bheap \<times> 'k bworld) option" where
  "bh_add_heap n H2 h w =
     (case add_heap_head n (b_head H2) h (b_nodes w) of
        None \<Rightarrow> None
      | Some (h', m') \<Rightarrow> Some (h', H2, w\<lparr>b_nodes := m'\<rparr>))"

text \<open>
  \<^verbatim>\<open>get_min()\<close> is \<^verbatim>\<open>get_min_node()->get_key()\<close>: it reads the key through whatever
  \<^verbatim>\<open>get_min_node\<close> has returned.
\<close>

definition bh_get_min :: "nat \<Rightarrow> bheap \<Rightarrow> ('k::linorder) bworld \<Rightarrow> (error + 'k) option" where
  "bh_get_min n h w =
     (case get_min_node n h (b_nodes w) of
        None \<Rightarrow> None
      | Some (Inl e) \<Rightarrow> Some (Inl e)
      | Some (Inr mn) \<Rightarrow> Some (Inr (bn_key (b_nodes w mn))))"

text \<open>
  \<^verbatim>\<open>insert(d)\<close>: a fresh node with null links and degree 0 gets the key, is melded in as a
  one-node chain, and its address is the handle returned.
\<close>

definition bh_insert ::
  "nat \<Rightarrow> 'k \<Rightarrow> bheap \<Rightarrow> ('k::linorder) bworld \<Rightarrow> (addr \<times> bheap \<times> 'k bworld) option" where
  "bh_insert n d h w =
     (let x = b_next w;
          m = (b_nodes w)(x := \<lparr>bn_p = None, bn_child = None, bn_sibling = None,
                               bn_degree = 0, bn_key = d\<rparr>)
      in case add_heap_head n (Some x) h m of
           None \<Rightarrow> None
         | Some (h', m') \<Rightarrow>
             Some (x, h'\<lparr>b_size := b_size h' + 1\<rparr>, \<lparr>b_nodes = m', b_next = Suc x\<rparr>))"

text \<open>The search loop of \<^verbatim>\<open>pop\<close>, with \<^verbatim>\<open>x\<close>, \<^verbatim>\<open>prev_x\<close>, \<^verbatim>\<open>min\<close> and \<^verbatim>\<open>prev_min\<close>.\<close>

fun pop_find_loop ::
  "nat \<Rightarrow> ('k::linorder) bmem \<Rightarrow> ptr \<Rightarrow> addr \<Rightarrow> addr \<Rightarrow> addr \<Rightarrow> (addr \<times> addr) option" where
  "pop_find_loop 0 m x prev_x mn prev_min = None"
| "pop_find_loop (Suc n) m x prev_x mn prev_min =
     (case x of
        None \<Rightarrow> Some (mn, prev_min)
      | Some xa \<Rightarrow>
          if bn_key (m xa) < bn_key (m mn)
          then pop_find_loop n m (bn_sibling (m xa)) xa xa prev_x
          else pop_find_loop n m (bn_sibling (m xa)) xa mn prev_min)"

text \<open>The loop of \<^verbatim>\<open>pop\<close> that clears the parent link along the child chain.\<close>

fun pop_clear_loop :: "nat \<Rightarrow> 'k bmem \<Rightarrow> ptr \<Rightarrow> 'k bmem option" where
  "pop_clear_loop 0 m x = None"
| "pop_clear_loop (Suc n) m x =
     (case x of
        None \<Rightarrow> Some m
      | Some xa \<Rightarrow>
          (let m1 = bn_set_p xa None m in pop_clear_loop n m1 (bn_sibling (m1 xa))))"

definition bh_pop ::
  "nat \<Rightarrow> bheap \<Rightarrow> ('k::linorder) bworld \<Rightarrow> ((error + 'k) \<times> bheap \<times> 'k bworld) option" where
  "bh_pop n h w =
     (if b_size h < 1 then Some (Inl (Out_of_range ''Pop from empty heap''), h, w)
      else case b_head h of
        None \<Rightarrow> Some (Inl Null_deref, h, w)
      | Some hp \<Rightarrow>
          (let m = b_nodes w in
           case pop_find_loop n m (bn_sibling (m hp)) hp hp hp of
             None \<Rightarrow> None
           | Some (mn, prev_min) \<Rightarrow>
               (let (h1, m1) =
                      (if hp = mn then (h\<lparr>b_head := bn_sibling (m mn)\<rparr>, m)
                       else (h, bn_set_sibling prev_min (bn_sibling (m mn)) m));
                    add_head = bn_child (m1 mn)
                in case pop_clear_loop n m1 add_head of
                     None \<Rightarrow> None
                   | Some m2 \<Rightarrow>
                       (case add_heap_head n add_head h1 m2 of
                          None \<Rightarrow> None
                        | Some (h2, m3) \<Rightarrow>
                            Some (Inr (bn_key (m3 mn)),
                                  h2\<lparr>b_size := b_size h2 - 1\<rparr>,
                                  w\<lparr>b_nodes := m3\<rparr>)))))"

text \<open>
  \<^verbatim>\<open>decrease_key(x, new_key)\<close>. The parameter \<open>x\<close> is a reference to the caller's handle,
  and the two locals are references as well: \<^verbatim>\<open>NodePtr &y = x\<close> is another name of the
  caller's handle, and \<^verbatim>\<open>NodePtr &z = y->p\<close> is another name of the member \<open>p\<close> of the node
  the handle pointed to at entry (\<open>x0\<close> below). So in the loop body \<^verbatim>\<open>y = z\<close> stores the
  parent pointer into the caller's handle, and \<^verbatim>\<open>z = y->p\<close> stores the grandparent pointer
  into the member \<open>p\<close> of \<open>x0\<close>. The loop function carries the handle \<open>y\<close>; \<open>z\<close> is read
  from the memory at \<open>x0\<close>.
\<close>

fun decrease_key_loop ::
  "nat \<Rightarrow> ('k::linorder) bmem \<Rightarrow> addr \<Rightarrow> addr \<Rightarrow> (addr \<times> 'k bmem) option" where
  "decrease_key_loop 0 m x0 y = None"
| "decrease_key_loop (Suc n) m x0 y =
     (case bn_p (m x0) of
        None \<Rightarrow> Some (y, m)
      | Some z \<Rightarrow>
          if bn_key (m y) < bn_key (m z)
          then (let ky = bn_key (m y);
                    kz = bn_key (m z);
                    m1 = bn_set_key z ky (bn_set_key y kz m);
                    y' = z;
                    m2 = bn_set_p x0 (bn_p (m1 y')) m1
                in decrease_key_loop n m2 x0 y')
          else Some (y, m))"

text \<open>The result carries the caller's handle as the call leaves it.\<close>

definition bh_decrease_key ::
  "nat \<Rightarrow> ptr \<Rightarrow> 'k \<Rightarrow> bheap \<Rightarrow> ('k::linorder) bworld
     \<Rightarrow> ((error + unit) \<times> ptr \<times> bheap \<times> 'k bworld) option" where
  "bh_decrease_key n x new_key h w =
     (case x of
        None \<Rightarrow> Some (Inl Null_deref, x, h, w)
      | Some x0 \<Rightarrow>
          if bn_key (b_nodes w x0) < new_key
          then Some (Inl (Out_of_range ''Bheap key can't be increased''), x, h, w)
          else (case decrease_key_loop n (bn_set_key x0 new_key (b_nodes w)) x0 x0 of
                  None \<Rightarrow> None
                | Some (y, m') \<Rightarrow> Some (Inr (), Some y, h, w\<lparr>b_nodes := m'\<rparr>)))"

section \<open>Fibonacci heap (\<^verbatim>\<open>FibHeap.h\<close>)\<close>

subsection \<open>Nodes, heap objects and memory\<close>

record 'k fnode =
  fn_p :: ptr
  fn_child :: ptr
  fn_left :: ptr
  fn_right :: ptr
  fn_degree :: "64 word"
  fn_key :: 'k
  fn_mark :: bool

type_synonym 'k fmem = "addr \<Rightarrow> 'k fnode"

text \<open>The members of \<^verbatim>\<open>FibHeap<T>\<close>: \<^verbatim>\<open>min\<close> and \<^verbatim>\<open>_size\<close>.\<close>

record fheap =
  f_min :: ptr
  f_size :: "64 word"

record 'k fworld =
  f_nodes :: "'k fmem"
  f_next :: addr

definition fheap_new :: fheap where
  "fheap_new = \<lparr>f_min = None, f_size = 0\<rparr>"

definition fn_set_p :: "addr \<Rightarrow> ptr \<Rightarrow> 'k fmem \<Rightarrow> 'k fmem" where
  "fn_set_p a v m = m(a := (m a)\<lparr>fn_p := v\<rparr>)"

definition fn_set_child :: "addr \<Rightarrow> ptr \<Rightarrow> 'k fmem \<Rightarrow> 'k fmem" where
  "fn_set_child a v m = m(a := (m a)\<lparr>fn_child := v\<rparr>)"

definition fn_set_left :: "addr \<Rightarrow> ptr \<Rightarrow> 'k fmem \<Rightarrow> 'k fmem" where
  "fn_set_left a v m = m(a := (m a)\<lparr>fn_left := v\<rparr>)"

definition fn_set_right :: "addr \<Rightarrow> ptr \<Rightarrow> 'k fmem \<Rightarrow> 'k fmem" where
  "fn_set_right a v m = m(a := (m a)\<lparr>fn_right := v\<rparr>)"

definition fn_set_degree :: "addr \<Rightarrow> 64 word \<Rightarrow> 'k fmem \<Rightarrow> 'k fmem" where
  "fn_set_degree a v m = m(a := (m a)\<lparr>fn_degree := v\<rparr>)"

definition fn_set_key :: "addr \<Rightarrow> 'k \<Rightarrow> 'k fmem \<Rightarrow> 'k fmem" where
  "fn_set_key a v m = m(a := (m a)\<lparr>fn_key := v\<rparr>)"

definition fn_set_mark :: "addr \<Rightarrow> bool \<Rightarrow> 'k fmem \<Rightarrow> 'k fmem" where
  "fn_set_mark a v m = m(a := (m a)\<lparr>fn_mark := v\<rparr>)"

subsection \<open>Private methods\<close>

text \<open>
  The private methods read and write the member \<^verbatim>\<open>min\<close> and the nodes; they take both
  and return both. \<^verbatim>\<open>insert_node(x)\<close>:
  \<^verbatim>\<open>if (!min) min = x; l = min->left; l->right = x; x->left = l; min->left = x;
  x->right = min; if (x->compare_less(min)) min = x;\<close>
\<close>

definition insert_node :: "ptr \<Rightarrow> ptr \<Rightarrow> ('k::linorder) fmem \<Rightarrow> error + (ptr \<times> 'k fmem)" where
  "insert_node x mn0 m =
     (case x of
        None \<Rightarrow> Inl Null_deref
      | Some xa \<Rightarrow>
          (let mn = (case mn0 of None \<Rightarrow> xa | Some a \<Rightarrow> a) in
           case fn_left (m mn) of
             None \<Rightarrow> Inl Null_deref
           | Some l \<Rightarrow>
               (let m1 = fn_set_right l (Some xa) m;
                    m2 = fn_set_left xa (Some l) m1;
                    m3 = fn_set_left mn (Some xa) m2;
                    m4 = fn_set_right xa (Some mn) m3
                in Inr (if fn_key (m4 xa) < fn_key (m4 mn) then Some xa else Some mn, m4))))"

text \<open>\<^verbatim>\<open>fib_link(y, x)\<close>: unlink \<open>y\<close> from its ring and make it a child of \<open>x\<close>.\<close>

definition fib_link_child :: "addr \<Rightarrow> addr \<Rightarrow> 'k fmem \<Rightarrow> error + 'k fmem" where
  "fib_link_child y x m =
     (case fn_child (m x) of
        None \<Rightarrow> Inr (fn_set_p y (Some x) (fn_set_child x (Some y) m))
      | Some c \<Rightarrow>
          (let r = fn_right (m c);
               m1 = fn_set_right c (Some y) m;
               m2 = fn_set_left y (fn_child (m1 x)) m1
           in case r of
                None \<Rightarrow> Inl Null_deref
              | Some ra \<Rightarrow>
                  (let m3 = fn_set_left ra (Some y) m2;
                       m4 = fn_set_right y r m3
                   in Inr (fn_set_p y (Some x) m4))))"

definition fib_link :: "addr \<Rightarrow> addr \<Rightarrow> 'k fmem \<Rightarrow> error + 'k fmem" where
  "fib_link y x m =
     (case fn_right (m y) of
        None \<Rightarrow> Inl Null_deref
      | Some yr \<Rightarrow>
          (let m1 = fn_set_left yr (fn_left (m y)) m in
           case fn_left (m1 y) of
             None \<Rightarrow> Inl Null_deref
           | Some yl \<Rightarrow>
               (let m2 = fn_set_right yl (fn_right (m1 y)) m1;
                    m3 = fn_set_left y (Some y) m2;
                    m4 = fn_set_right y (Some y) m3
                in case fib_link_child y x m4 of
                     Inl e \<Rightarrow> Inl e
                   | Inr m5 \<Rightarrow>
                       Inr (fn_set_mark y False
                              (fn_set_degree x (fn_degree (m5 x) + 1) m5)))))"

text \<open>
  \<^verbatim>\<open>consolidate()\<close>, first loop: walk the root ring from \<^verbatim>\<open>min\<close> to the right, collecting
  \<^verbatim>\<open>max_d\<close>, \<^verbatim>\<open>num_trees\<close> and \<^verbatim>\<open>orig_nodes\<close> (a do-while, entered with \<open>x\<close> non-null).
\<close>

fun consolidate_collect ::
  "nat \<Rightarrow> 'k fmem \<Rightarrow> ptr \<Rightarrow> ptr \<Rightarrow> 64 word \<Rightarrow> 64 word \<Rightarrow> addr list
     \<Rightarrow> (error + (64 word \<times> 64 word \<times> addr list)) option" where
  "consolidate_collect 0 m mn x max_d num_trees orig_nodes = None"
| "consolidate_collect (Suc n) m mn x max_d num_trees orig_nodes =
     (case x of
        None \<Rightarrow> Some (Inl Null_deref)
      | Some xa \<Rightarrow>
          (let max_d' = max max_d (fn_degree (m xa));
               num_trees' = num_trees + 1;
               orig_nodes' = orig_nodes @ [xa];
               x' = fn_right (m xa)
           in if x' \<noteq> mn
              then consolidate_collect n m mn x' max_d' num_trees' orig_nodes'
              else Some (Inr (max_d', num_trees', orig_nodes'))))"

text \<open>
  The \<^verbatim>\<open>while (A[d] != nullptr)\<close> loop for one element \<open>x\<close> of \<^verbatim>\<open>orig_nodes\<close>. The vector
  \<open>A\<close> is a list of pointers; \<^verbatim>\<open>A[d]\<close> is unchecked in the source.
\<close>

fun consolidate_link_loop ::
  "nat \<Rightarrow> ('k::linorder) fmem \<Rightarrow> ptr list \<Rightarrow> addr \<Rightarrow> 64 word
     \<Rightarrow> (error + ('k fmem \<times> ptr list \<times> addr \<times> 64 word)) option" where
  "consolidate_link_loop 0 m A x d = None"
| "consolidate_link_loop (Suc n) m A x d =
     (if length A \<le> unat d then Some (Inl Out_of_bounds)
      else case A ! unat d of
        None \<Rightarrow> Some (Inr (m, A, x, d))
      | Some y \<Rightarrow>
          (let (x', y') = (if fn_key (m y) < fn_key (m x) then (y, x) else (x, y)) in
           case fib_link y' x' m of
             Inl e \<Rightarrow> Some (Inl e)
           | Inr m1 \<Rightarrow> consolidate_link_loop n m1 (A[unat d := None]) x' (d + 1)))"

text \<open>The \<^verbatim>\<open>for (auto &x : orig_nodes)\<close> loop.\<close>

fun consolidate_for ::
  "nat \<Rightarrow> ('k::linorder) fmem \<Rightarrow> ptr list \<Rightarrow> addr list \<Rightarrow> (error + ('k fmem \<times> ptr list)) option" where
  "consolidate_for n m A [] = Some (Inr (m, A))"
| "consolidate_for n m A (x # xs) =
     (case consolidate_link_loop n m A x (fn_degree (m x)) of
        None \<Rightarrow> None
      | Some (Inl e) \<Rightarrow> Some (Inl e)
      | Some (Inr (m1, A1, x1, d1)) \<Rightarrow> consolidate_for n m1 (A1[unat d1 := Some x1]) xs)"

text \<open>The final loop: \<^verbatim>\<open>insert_node(A[i])\<close> for every non-null entry, in index order.\<close>

fun consolidate_rebuild ::
  "ptr list \<Rightarrow> ptr \<Rightarrow> ('k::linorder) fmem \<Rightarrow> error + (ptr \<times> 'k fmem)" where
  "consolidate_rebuild [] mn m = Inr (mn, m)"
| "consolidate_rebuild (a # as) mn m =
     (case a of
        None \<Rightarrow> consolidate_rebuild as mn m
      | Some _ \<Rightarrow>
          (case insert_node a mn m of
             Inl e \<Rightarrow> Inl e
           | Inr (mn', m') \<Rightarrow> consolidate_rebuild as mn' m'))"

definition consolidate ::
  "nat \<Rightarrow> ptr \<Rightarrow> ('k::linorder) fmem \<Rightarrow> (error + (ptr \<times> 'k fmem)) option" where
  "consolidate n mn m =
     (case (case mn of
              None \<Rightarrow> Some (Inr (0, 0, []))
            | Some _ \<Rightarrow> consolidate_collect n m mn mn 0 0 []) of
        None \<Rightarrow> None
      | Some (Inl e) \<Rightarrow> Some (Inl e)
      | Some (Inr (max_d, num_trees, orig_nodes)) \<Rightarrow>
          (let node_vec_size = max_d + num_trees;
               A = replicate (unat node_vec_size) None
           in case consolidate_for n m A orig_nodes of
                None \<Rightarrow> None
              | Some (Inl e) \<Rightarrow> Some (Inl e)
              | Some (Inr (m1, A1)) \<Rightarrow> Some (consolidate_rebuild A1 None m1)))"

text \<open>\<^verbatim>\<open>cut(x, y)\<close>: take \<open>x\<close> out of the child ring of \<open>y\<close> and insert it as a root.\<close>

definition cut :: "addr \<Rightarrow> addr \<Rightarrow> ptr \<Rightarrow> ('k::linorder) fmem \<Rightarrow> error + (ptr \<times> 'k fmem)" where
  "cut x y mn m =
     (case (if fn_right (m x) \<noteq> Some x
            then (let m1 = fn_set_child y (fn_right (m x)) m in
                  case fn_right (m1 x) of
                    None \<Rightarrow> Inl Null_deref
                  | Some xr \<Rightarrow>
                      (let m2 = fn_set_left xr (fn_left (m1 x)) m1 in
                       case fn_left (m2 x) of
                         None \<Rightarrow> Inl Null_deref
                       | Some xl \<Rightarrow> Inr (fn_set_right xl (fn_right (m2 x)) m2)))
            else Inr (fn_set_child y None m)) of
        Inl e \<Rightarrow> Inl e
      | Inr m3 \<Rightarrow>
          (let m4 = fn_set_degree y (fn_degree (m3 y) - 1) m3;
               m5 = fn_set_p x None m4;
               m6 = fn_set_mark x False m5
           in insert_node (Some x) mn m6))"

text \<open>\<^verbatim>\<open>cascading_cut(y)\<close>, recursive in the source.\<close>

fun cascading_cut ::
  "nat \<Rightarrow> addr \<Rightarrow> ptr \<Rightarrow> ('k::linorder) fmem \<Rightarrow> (error + (ptr \<times> 'k fmem)) option" where
  "cascading_cut 0 y mn m = None"
| "cascading_cut (Suc n) y mn m =
     (case fn_p (m y) of
        None \<Rightarrow> Some (Inr (mn, m))
      | Some z \<Rightarrow>
          if fn_mark (m y)
          then (case cut y z mn m of
                  Inl e \<Rightarrow> Some (Inl e)
                | Inr (mn1, m1) \<Rightarrow> cascading_cut n z mn1 m1)
          else Some (Inr (mn, fn_set_mark y True m)))"

subsection \<open>Public methods\<close>

text \<open>
  Every public method returns its outcome together with the heap object and the memory.
  On a thrown exception these are the state at the throw; after a null dereference the
  C++ program has no defined state, and the model hands back the state of the call.
\<close>

definition fh_size :: "fheap \<Rightarrow> 64 word" where
  "fh_size h = f_size h"

definition fh_insert ::
  "'k \<Rightarrow> fheap \<Rightarrow> ('k::linorder) fworld \<Rightarrow> (error + addr) \<times> fheap \<times> 'k fworld" where
  "fh_insert k h w =
     (let x = f_next w;
          m = (f_nodes w)(x := \<lparr>fn_p = None, fn_child = None, fn_left = Some x,
                               fn_right = Some x, fn_degree = 0, fn_key = k,
                               fn_mark = False\<rparr>)
      in case insert_node (Some x) (f_min h) m of
           Inl e \<Rightarrow> (Inl e, h, w)
         | Inr (mn', m') \<Rightarrow>
             (Inr x, \<lparr>f_min = mn', f_size = f_size h + 1\<rparr>, \<lparr>f_nodes = m', f_next = Suc x\<rparr>))"

text \<open>
  The do-while loop of \<^verbatim>\<open>add_heap(H)\<close>: \<^verbatim>\<open>insert_node(merged); merged = merged->right\<close>
  while \<^verbatim>\<open>merged != H.min\<close>. \<open>hmin\<close> is \<^verbatim>\<open>H.min\<close>, which the method never writes
  (\<open>H\<close> is a heap object other than the one the method is called on).
\<close>

fun add_heap_loop ::
  "nat \<Rightarrow> ptr \<Rightarrow> ptr \<Rightarrow> ptr \<Rightarrow> ('k::linorder) fmem \<Rightarrow> (error + (ptr \<times> 'k fmem)) option" where
  "add_heap_loop 0 hmin merged mn m = None"
| "add_heap_loop (Suc n) hmin merged mn m =
     (case insert_node merged mn m of
        Inl e \<Rightarrow> Some (Inl e)
      | Inr (mn', m') \<Rightarrow>
          (case merged of
             None \<Rightarrow> Some (Inl Null_deref)
           | Some a \<Rightarrow>
               (let merged' = fn_right (m' a) in
                if merged' \<noteq> hmin then add_heap_loop n hmin merged' mn' m'
                else Some (Inr (mn', m')))))"

text \<open>\<^verbatim>\<open>add_heap(H)\<close>: no member \<^verbatim>\<open>_size\<close> is written, and \<open>H\<close> is left as it is.\<close>

definition fh_add_heap ::
  "nat \<Rightarrow> fheap \<Rightarrow> fheap \<Rightarrow> ('k::linorder) fworld
     \<Rightarrow> ((error + unit) \<times> fheap \<times> fheap \<times> 'k fworld) option" where
  "fh_add_heap n H h w =
     (case f_min H of
        None \<Rightarrow> Some (Inr (), h, H, w)
      | Some _ \<Rightarrow>
          (case add_heap_loop n (f_min H) (f_min H) (f_min h) (f_nodes w) of
             None \<Rightarrow> None
           | Some (Inl e) \<Rightarrow> Some (Inl e, h, H, w)
           | Some (Inr (mn', m')) \<Rightarrow>
               Some (Inr (), h\<lparr>f_min := mn'\<rparr>, H, w\<lparr>f_nodes := m'\<rparr>)))"

definition fh_get_min :: "fheap \<Rightarrow> 'k fworld \<Rightarrow> error + 'k" where
  "fh_get_min h w =
     (case f_min h of
        None \<Rightarrow> Inl Null_deref
      | Some a \<Rightarrow> Inr (fn_key (f_nodes w a)))"

text \<open>
  The do-while loop of \<^verbatim>\<open>pop\<close> over the children of the minimum:
  \<^verbatim>\<open>x = next_x; x->p = nullptr; next_x = x->right; x->left->right = x->left;
  x->right->left = x->right; insert_node(x);\<close> while \<^verbatim>\<open>next_x != x\<close>.
\<close>

fun pop_splice_loop ::
  "nat \<Rightarrow> ptr \<Rightarrow> ptr \<Rightarrow> ('k::linorder) fmem \<Rightarrow> (error + (ptr \<times> 'k fmem)) option" where
  "pop_splice_loop 0 next_x mn m = None"
| "pop_splice_loop (Suc n) next_x mn m =
     (case next_x of
        None \<Rightarrow> Some (Inl Null_deref)
      | Some x \<Rightarrow>
          (let m1 = fn_set_p x None m;
               next_x' = fn_right (m1 x)
           in case fn_left (m1 x) of
                None \<Rightarrow> Some (Inl Null_deref)
              | Some xl \<Rightarrow>
                  (let m2 = fn_set_right xl (fn_left (m1 x)) m1 in
                   case fn_right (m2 x) of
                     None \<Rightarrow> Some (Inl Null_deref)
                   | Some xr \<Rightarrow>
                       (let m3 = fn_set_left xr (fn_right (m2 x)) m2 in
                        case insert_node (Some x) mn m3 of
                          Inl e \<Rightarrow> Some (Inl e)
                        | Inr (mn', m4) \<Rightarrow>
                            if next_x' \<noteq> Some x then pop_splice_loop n next_x' mn' m4
                            else Some (Inr (mn', m4))))))"

text \<open>The unlinking of the minimum \<open>z\<close> in \<^verbatim>\<open>pop\<close>, after the children are spliced.\<close>

definition pop_unlink :: "addr \<Rightarrow> 'k fmem \<Rightarrow> error + (ptr \<times> 'k fmem)" where
  "pop_unlink z m =
     (let mn = (if fn_right (m z) = Some z then None else fn_right (m z)) in
      case (if fn_right (m z) \<noteq> Some z
            then (case fn_right (m z) of
                    None \<Rightarrow> Inl Null_deref
                  | Some zr \<Rightarrow> Inr (fn_set_left zr (fn_left (m z)) m))
            else Inr m) of
        Inl e \<Rightarrow> Inl e
      | Inr m1 \<Rightarrow>
          (if fn_left (m1 z) \<noteq> Some z
           then (case fn_left (m1 z) of
                   None \<Rightarrow> Inl Null_deref
                 | Some zl \<Rightarrow> Inr (mn, fn_set_right zl (fn_right (m1 z)) m1))
           else Inr (mn, m1)))"

definition fh_pop ::
  "nat \<Rightarrow> fheap \<Rightarrow> ('k::linorder) fworld \<Rightarrow> ((error + 'k) \<times> fheap \<times> 'k fworld) option" where
  "fh_pop n h w =
     (case f_min h of
        None \<Rightarrow> Some (Inl (Out_of_range ''Pop from empty FibHeap''), h, w)
      | Some z \<Rightarrow>
          (case (case fn_child (f_nodes w z) of
                   None \<Rightarrow> Some (Inr (f_min h, f_nodes w))
                 | Some c \<Rightarrow> pop_splice_loop n (Some c) (f_min h) (f_nodes w)) of
             None \<Rightarrow> None
           | Some (Inl e) \<Rightarrow> Some (Inl e, h, w)
           | Some (Inr (mn1, m1)) \<Rightarrow>
               (case pop_unlink z m1 of
                  Inl e \<Rightarrow> Some (Inl e, h, w)
                | Inr (mn2, m2) \<Rightarrow>
                    (case consolidate n mn2 m2 of
                       None \<Rightarrow> None
                     | Some (Inl e) \<Rightarrow> Some (Inl e, h, w)
                     | Some (Inr (mn3, m3)) \<Rightarrow>
                         Some (Inr (fn_key (m3 z)),
                               \<lparr>f_min = mn3, f_size = f_size h - 1\<rparr>,
                               w\<lparr>f_nodes := m3\<rparr>)))))"

definition fh_decrease_key ::
  "nat \<Rightarrow> ptr \<Rightarrow> 'k \<Rightarrow> fheap \<Rightarrow> ('k::linorder) fworld
     \<Rightarrow> ((error + unit) \<times> fheap \<times> 'k fworld) option" where
  "fh_decrease_key n N new_key h w =
     (case N of
        None \<Rightarrow> Some (Inl Null_deref, h, w)
      | Some x \<Rightarrow>
          if fn_key (f_nodes w x) < new_key
          then Some (Inl (Out_of_range ''FibHeap key can't be increased''), h, w)
          else (let m = fn_set_key x new_key (f_nodes w) in
                case (case fn_p (m x) of
                        None \<Rightarrow> Some (Inr (f_min h, m))
                      | Some y \<Rightarrow>
                          if fn_key (m x) < fn_key (m y)
                          then (case cut x y (f_min h) m of
                                  Inl e \<Rightarrow> Some (Inl e)
                                | Inr (mn1, m1) \<Rightarrow> cascading_cut n y mn1 m1)
                          else Some (Inr (f_min h, m))) of
                  None \<Rightarrow> None
                | Some (Inl e) \<Rightarrow> Some (Inl e, h, w)
                | Some (Inr (mn2, m2)) \<Rightarrow>
                    (case mn2 of
                       None \<Rightarrow> Some (Inl Null_deref, h, w)
                     | Some a \<Rightarrow>
                         Some (Inr (),
                               h\<lparr>f_min := (if fn_key (m2 x) < fn_key (m2 a) then Some x
                                            else mn2)\<rparr>,
                               w\<lparr>f_nodes := m2\<rparr>))))"

section \<open>Call sequences and observations\<close>

text \<open>
  A caller's program is a sequence of calls. The functions below run the sequences the
  properties speak of: inserting a list of keys one by one (returning the handles), and
  calling \<^verbatim>\<open>pop()\<close> until \<^verbatim>\<open>size()\<close> is 0 or a call fails (returning every outcome).
\<close>

fun bh_insert_list ::
  "nat \<Rightarrow> 'k list \<Rightarrow> bheap \<Rightarrow> ('k::linorder) bworld \<Rightarrow> (addr list \<times> bheap \<times> 'k bworld) option" where
  "bh_insert_list n [] h w = Some ([], h, w)"
| "bh_insert_list n (k # ks) h w =
     (case bh_insert n k h w of
        None \<Rightarrow> None
      | Some (x, h1, w1) \<Rightarrow>
          (case bh_insert_list n ks h1 w1 of
             None \<Rightarrow> None
           | Some (xs, h2, w2) \<Rightarrow> Some (x # xs, h2, w2)))"

fun bh_pop_all ::
  "nat \<Rightarrow> nat \<Rightarrow> bheap \<Rightarrow> ('k::linorder) bworld
     \<Rightarrow> ((error + 'k) list \<times> bheap \<times> 'k bworld) option" where
  "bh_pop_all n 0 h w = None"
| "bh_pop_all n (Suc c) h w =
     (if bh_size h = 0 then Some ([], h, w)
      else case bh_pop n h w of
        None \<Rightarrow> None
      | Some (Inl e, h1, w1) \<Rightarrow> Some ([Inl e], h1, w1)
      | Some (Inr k, h1, w1) \<Rightarrow>
          (case bh_pop_all n c h1 w1 of
             None \<Rightarrow> None
           | Some (rs, h2, w2) \<Rightarrow> Some (Inr k # rs, h2, w2)))"

fun fh_insert_list ::
  "'k list \<Rightarrow> fheap \<Rightarrow> ('k::linorder) fworld \<Rightarrow> error + (addr list \<times> fheap \<times> 'k fworld)" where
  "fh_insert_list [] h w = Inr ([], h, w)"
| "fh_insert_list (k # ks) h w =
     (case fh_insert k h w of
        (Inl e, h1, w1) \<Rightarrow> Inl e
      | (Inr x, h1, w1) \<Rightarrow>
          (case fh_insert_list ks h1 w1 of
             Inl e \<Rightarrow> Inl e
           | Inr (xs, h2, w2) \<Rightarrow> Inr (x # xs, h2, w2)))"

fun fh_pop_all ::
  "nat \<Rightarrow> nat \<Rightarrow> fheap \<Rightarrow> ('k::linorder) fworld
     \<Rightarrow> ((error + 'k) list \<times> fheap \<times> 'k fworld) option" where
  "fh_pop_all n 0 h w = None"
| "fh_pop_all n (Suc c) h w =
     (if fh_size h = 0 then Some ([], h, w)
      else case fh_pop n h w of
        None \<Rightarrow> None
      | Some (Inl e, h1, w1) \<Rightarrow> Some ([Inl e], h1, w1)
      | Some (Inr k, h1, w1) \<Rightarrow>
          (case fh_pop_all n c h1 w1 of
             None \<Rightarrow> None
           | Some (rs, h2, w2) \<Rightarrow> Some (Inr k # rs, h2, w2)))"

text \<open>
  Observations of a state: the chain of roots of a binomial heap, from \<^verbatim>\<open>head\<close> along
  \<^verbatim>\<open>sibling\<close>; the chain of children of a node, from \<^verbatim>\<open>child\<close> along \<^verbatim>\<open>sibling\<close>; the ring
  of roots of a Fibonacci heap, from \<^verbatim>\<open>min\<close> along \<^verbatim>\<open>right\<close> until \<^verbatim>\<open>min\<close> comes again.
\<close>

fun bh_chain :: "nat \<Rightarrow> 'k bmem \<Rightarrow> ptr \<Rightarrow> addr list option" where
  "bh_chain 0 m x = None"
| "bh_chain (Suc n) m x =
     (case x of
        None \<Rightarrow> Some []
      | Some a \<Rightarrow> map_option ((#) a) (bh_chain n m (bn_sibling (m a))))"

definition bh_roots :: "nat \<Rightarrow> bheap \<Rightarrow> 'k bworld \<Rightarrow> addr list option" where
  "bh_roots n h w = bh_chain n (b_nodes w) (b_head h)"

definition bh_children :: "nat \<Rightarrow> 'k bworld \<Rightarrow> addr \<Rightarrow> addr list option" where
  "bh_children n w a = bh_chain n (b_nodes w) (bn_child (b_nodes w a))"

fun fh_ring :: "nat \<Rightarrow> 'k fmem \<Rightarrow> addr \<Rightarrow> ptr \<Rightarrow> addr list option" where
  "fh_ring 0 m stop x = None"
| "fh_ring (Suc n) m stop x =
     (case x of
        None \<Rightarrow> None
      | Some a \<Rightarrow>
          if fn_right (m a) = Some stop then Some [a]
          else map_option ((#) a) (fh_ring n m stop (fn_right (m a))))"

definition fh_roots :: "nat \<Rightarrow> fheap \<Rightarrow> 'k fworld \<Rightarrow> addr list option" where
  "fh_roots n h w =
     (case f_min h of None \<Rightarrow> Some [] | Some a \<Rightarrow> fh_ring n (f_nodes w) a (Some a))"

text \<open>
  Memory before any allocation, for the concrete runs below, with keys of type \<open>int\<close>.
  What an unallocated address holds is never read.
\<close>

definition bworld0 :: "int bworld" where
  "bworld0 =
     \<lparr>b_nodes = (\<lambda>_. \<lparr>bn_p = None, bn_child = None, bn_sibling = None,
                       bn_degree = 0, bn_key = 0\<rparr>),
      b_next = 0\<rparr>"

definition fworld0 :: "int fworld" where
  "fworld0 =
     \<lparr>f_nodes = (\<lambda>_. \<lparr>fn_p = None, fn_child = None, fn_left = None, fn_right = None,
                       fn_degree = 0, fn_key = 0, fn_mark = False\<rparr>),
      f_next = 0\<rparr>"

section \<open>Memories of concrete runs, and well-formed memories\<close>

text \<open>
  In a concrete run the memory is the initial memory with finitely many nodes written,
  the nodes at the addresses below \<^verbatim>\<open>next\<close>. Writing such a memory as the list of these
  nodes keeps it in one normal form while the simplifier runs the model.
\<close>

definition bmem_of :: "int bnode list \<Rightarrow> int bmem" where
  "bmem_of ns = (\<lambda>a. if a < length ns then ns ! a else b_nodes bworld0 a)"

definition fmem_of :: "int fnode list \<Rightarrow> int fmem" where
  "fmem_of ns = (\<lambda>a. if a < length ns then ns ! a else f_nodes fworld0 a)"

text \<open>
  In every state the Fibonacci heap's methods build, each allocated node has non-null
  \<^verbatim>\<open>left\<close> and \<^verbatim>\<open>right\<close> links (a new node points to itself, and the methods store only
  node pointers they hold), and links lead to allocated nodes. \<open>fclosed nx m\<close> says so for
  the nodes below \<open>nx\<close>.
\<close>

definition fclosed :: "addr \<Rightarrow> 'k fmem \<Rightarrow> bool" where
  "fclosed nx m \<longleftrightarrow>
     (\<forall>a<nx. (\<exists>l<nx. fn_left (m a) = Some l) \<and> (\<exists>r<nx. fn_right (m a) = Some r)
        \<and> (\<forall>q. fn_p (m a) = Some q \<longrightarrow> q < nx))"

section \<open>Abstract states\<close>

text \<open>
  The properties of \<^verbatim>\<open>insert\<close> and \<^verbatim>\<open>pop\<close> on well-formed heaps are stated over an abstract
  view of the memory: the trees a heap consists of, as values, and predicates saying that
  a memory holds such trees. Nothing here changes the model of the code; these are the
  notions that the theorems about it use.
\<close>

subsection \<open>Binomial heap\<close>

text \<open>
  A chain of binomial trees in left-child, right-sibling form: a node with its address
  and key, the chain of its children and the rest of its own chain. \<open>brep m x t\<close> says
  that in the memory \<open>m\<close> the pointer \<open>x\<close> leads to the chain \<open>t\<close>. The fields
  \<^verbatim>\<open>p\<close> and \<^verbatim>\<open>degree\<close> are not part of it.
\<close>

datatype 'k ltree = LLeaf | LNode addr 'k "'k ltree" "'k ltree"

type_synonym 'k broot = "addr \<times> 'k \<times> 'k ltree"

fun brep :: "'k bmem \<Rightarrow> ptr \<Rightarrow> 'k ltree \<Rightarrow> bool" where
  "brep m x LLeaf = (x = None)"
| "brep m x (LNode a k c s) =
     (x = Some a \<and> bn_key (m a) = k \<and> brep m (bn_child (m a)) c
      \<and> brep m (bn_sibling (m a)) s)"

text \<open>
  The addresses of a chain, that they are distinct, its keys (a multiset), heap order
  (no key below a node is less than the key of the node), and the number of nodes.
\<close>

fun laddrs :: "'k ltree \<Rightarrow> addr set" where
  "laddrs LLeaf = {}"
| "laddrs (LNode a k c s) = insert a (laddrs c \<union> laddrs s)"

fun ldist :: "'k ltree \<Rightarrow> bool" where
  "ldist LLeaf = True"
| "ldist (LNode a k c s) =
     (a \<notin> laddrs c \<and> a \<notin> laddrs s \<and> laddrs c \<inter> laddrs s = {} \<and> ldist c \<and> ldist s)"

fun lkeys :: "'k ltree \<Rightarrow> 'k multiset" where
  "lkeys LLeaf = {#}"
| "lkeys (LNode a k c s) = {#k#} + lkeys c + lkeys s"

fun lheap :: "('k::linorder) ltree \<Rightarrow> bool" where
  "lheap LLeaf = True"
| "lheap (LNode a k c s) = ((\<forall>x\<in>#lkeys c. k \<le> x) \<and> lheap c \<and> lheap s)"

fun lsize :: "'k ltree \<Rightarrow> nat" where
  "lsize LLeaf = 0"
| "lsize (LNode a k c s) = Suc (lsize c + lsize s)"

text \<open>
  A chain of roots is also read as a list of roots, each with its address, its key and
  the chain of its children. \<open>bseg m x rs y\<close> says that following \<^verbatim>\<open>sibling\<close> from the
  pointer \<open>x\<close> visits the roots \<open>rs\<close> and ends at the pointer \<open>y\<close>.
\<close>

fun bseg :: "'k bmem \<Rightarrow> ptr \<Rightarrow> 'k broot list \<Rightarrow> ptr \<Rightarrow> bool" where
  "bseg m x [] y = (x = y)"
| "bseg m x (r # rs) y =
     (case r of (a, k, c) \<Rightarrow>
        x = Some a \<and> bn_key (m a) = k \<and> brep m (bn_child (m a)) c
        \<and> bseg m (bn_sibling (m a)) rs y)"

fun raddrs :: "'k broot list \<Rightarrow> addr set" where
  "raddrs [] = {}"
| "raddrs (r # rs) = (case r of (a, k, c) \<Rightarrow> insert a (laddrs c) \<union> raddrs rs)"

fun rdist :: "'k broot list \<Rightarrow> bool" where
  "rdist [] = True"
| "rdist (r # rs) =
     (case r of (a, k, c) \<Rightarrow>
        a \<notin> laddrs c \<and> ldist c \<and> insert a (laddrs c) \<inter> raddrs rs = {} \<and> rdist rs)"

fun rkeys :: "'k broot list \<Rightarrow> 'k multiset" where
  "rkeys [] = {#}"
| "rkeys (r # rs) = (case r of (a, k, c) \<Rightarrow> {#k#} + lkeys c + rkeys rs)"

fun rheap :: "('k::linorder) broot list \<Rightarrow> bool" where
  "rheap [] = True"
| "rheap (r # rs) = (case r of (a, k, c) \<Rightarrow> (\<forall>x\<in>#lkeys c. k \<le> x) \<and> lheap c \<and> rheap rs)"

text \<open>
  \<open>same_on A m m'\<close>: the two memories have the same key, child and sibling at every
  address in \<open>A\<close>.
\<close>

definition same_on :: "addr set \<Rightarrow> 'k bmem \<Rightarrow> 'k bmem \<Rightarrow> bool" where
  "same_on A m m' \<longleftrightarrow>
     (\<forall>a\<in>A. bn_key (m' a) = bn_key (m a) \<and> bn_child (m' a) = bn_child (m a)
        \<and> bn_sibling (m' a) = bn_sibling (m a))"

text \<open>
  The top level of a chain, as a list of roots.
\<close>

fun spine :: "'k ltree \<Rightarrow> 'k broot list" where
  "spine LLeaf = []"
| "spine (LNode a k c s) = (a, k, c) # spine s"

text \<open>
  A well-formed binomial heap with the roots \<open>R\<close>: \<^verbatim>\<open>head\<close> leads to \<open>R\<close>, all nodes
  are distinct and allocated, every tree is heap-ordered, and \<^verbatim>\<open>_size\<close> is the number of
  keys. The degrees of the roots are not constrained.
\<close>

definition binv :: "bheap \<Rightarrow> ('k::linorder) bworld \<Rightarrow> 'k broot list \<Rightarrow> bool" where
  "binv h w R \<longleftrightarrow>
     bseg (b_nodes w) (b_head h) R None \<and> rdist R \<and> rheap R
     \<and> (\<forall>a\<in>raddrs R. a < b_next w) \<and> unat (b_size h) = size (rkeys R)"

subsection \<open>Fibonacci heap\<close>

text \<open>
  The roots of a Fibonacci heap, and the children of each node, form a circular doubly
  linked list. \<open>ring m xs\<close> says that the distinct nodes \<open>xs\<close> form such a ring in
  this order: \<^verbatim>\<open>right\<close> of each node is the next one, \<^verbatim>\<open>left\<close> of that one points back,
  and the last node is linked to the first in the same way.
\<close>

definition linked :: "'k fmem \<Rightarrow> addr \<Rightarrow> addr \<Rightarrow> bool" where
  "linked m a b \<longleftrightarrow> fn_right (m a) = Some b \<and> fn_left (m b) = Some a"

definition ring :: "'k fmem \<Rightarrow> addr list \<Rightarrow> bool" where
  "ring m xs \<longleftrightarrow>
     xs \<noteq> [] \<and> distinct xs \<and> successively (linked m) xs \<and> linked m (last xs) (hd xs)"

text \<open>
  \<open>mods S L m m'\<close>: from \<open>m\<close> to \<open>m'\<close> no key has changed, \<^verbatim>\<open>child\<close> and
  \<^verbatim>\<open>degree\<close> have changed at most at the addresses in \<open>S\<close>, \<^verbatim>\<open>left\<close> and \<^verbatim>\<open>right\<close>
  at most at the addresses in \<open>L\<close>.
\<close>

definition mods :: "addr set \<Rightarrow> addr set \<Rightarrow> 'k fmem \<Rightarrow> 'k fmem \<Rightarrow> bool" where
  "mods S L m m' \<longleftrightarrow>
     (\<forall>a. fn_key (m' a) = fn_key (m a))
     \<and> (\<forall>a. a \<notin> S \<longrightarrow> fn_child (m' a) = fn_child (m a) \<and> fn_degree (m' a) = fn_degree (m a))
     \<and> (\<forall>a. a \<notin> L \<longrightarrow> fn_left (m' a) = fn_left (m a) \<and> fn_right (m' a) = fn_right (m a))"

text \<open>
  A tree of a Fibonacci heap: address, key and children, the children in the order of
  their ring, starting at the node the \<^verbatim>\<open>child\<close> pointer designates. \<open>tal\<close> lists the
  addresses of a tree, \<open>tkeys\<close> is the multiset of its keys, \<open>theap\<close> is heap order.
  \<open>ftrep m t\<close> says that the memory \<open>m\<close> holds \<open>t\<close>: every node has the key, the
  degree and the child pointer that \<open>t\<close> gives it, and its children form a ring. The
  fields \<^verbatim>\<open>p\<close> and \<^verbatim>\<open>mark\<close> are not part of it.
\<close>

datatype 'k ftree = FNode (faddr: addr) (fkey: 'k) (kids: "'k ftree list")

fun tal :: "'k ftree \<Rightarrow> addr list" where
  "tal (FNode a k cs) = a # concat (map tal cs)"

fun tkeys :: "'k ftree \<Rightarrow> 'k multiset" where
  "tkeys (FNode a k cs) = {#k#} + sum_list (map tkeys cs)"

fun theap :: "('k::linorder) ftree \<Rightarrow> bool" where
  "theap (FNode a k cs) = (\<forall>c\<in>set cs. k \<le> fkey c \<and> theap c)"

fun ftrep :: "'k fmem \<Rightarrow> 'k ftree \<Rightarrow> bool" where
  "ftrep m (FNode a k cs) =
     (fn_key (m a) = k \<and> fn_degree (m a) = of_nat (length cs)
      \<and> (if cs = [] then fn_child (m a) = None
         else fn_child (m a) = Some (faddr (hd cs)) \<and> ring m (map faddr cs))
      \<and> (\<forall>c\<in>set cs. ftrep m c))"

text \<open>
  The addresses and the keys of a list of trees.
\<close>

definition fal :: "'k ftree list \<Rightarrow> addr list" where
  "fal F = concat (map tal F)"

definition fkeys :: "'k ftree list \<Rightarrow> 'k multiset" where
  "fkeys F = sum_list (map tkeys F)"

text \<open>
  \<open>froots m G r\<close>: the memory holds the trees \<open>G\<close>, which are heap-ordered and have
  distinct addresses, and their roots are the nodes of the ring \<open>r\<close>.
\<close>

definition froots :: "('k::linorder) fmem \<Rightarrow> 'k ftree list \<Rightarrow> addr list \<Rightarrow> bool" where
  "froots m G r \<longleftrightarrow>
     (\<forall>t\<in>set G. ftrep m t \<and> theap t) \<and> distinct (fal G) \<and> set r = faddr ` set G
     \<and> (r \<noteq> [] \<longrightarrow> ring m r)"

text \<open>
  A well-formed Fibonacci heap with the trees \<open>G\<close>: \<^verbatim>\<open>min\<close> is null when there is no
  tree and is otherwise the first node of the ring of roots, with a key not above the key
  of any root; all nodes are allocated; \<^verbatim>\<open>_size\<close> is the number of keys.
\<close>

definition finv :: "fheap \<Rightarrow> ('k::linorder) fworld \<Rightarrow> 'k ftree list \<Rightarrow> bool" where
  "finv h w G \<longleftrightarrow>
     (\<exists>r. froots (f_nodes w) G r \<and> f_min h = (if r = [] then None else Some (hd r))
        \<and> (r \<noteq> [] \<longrightarrow> (\<forall>t\<in>set G. fn_key (f_nodes w (hd r)) \<le> fkey t)))
     \<and> (\<forall>a\<in>set (fal G). a < f_next w) \<and> unat (f_size h) = size (fkeys G)"

text \<open>
  The memory after one round of the loop of \<^verbatim>\<open>pop\<close> at the child \<open>x\<close> of the minimum
  \<open>z\<close>: \<open>xl\<close> and \<open>xr\<close> are the nodes that the two unlinking assignments write to,
  and \<open>l0\<close> is the node left of \<open>z\<close>.
\<close>

definition splice_mem ::
  "'k fmem \<Rightarrow> addr \<Rightarrow> addr \<Rightarrow> addr \<Rightarrow> addr \<Rightarrow> addr \<Rightarrow> 'k fmem" where
  "splice_mem m x z xl xr l0 =
     fn_set_right x (Some z) (fn_set_left z (Some x) (fn_set_left x (Some l0)
       (fn_set_right l0 (Some x) (fn_set_left xr (Some xr) (fn_set_right xl (Some xl)
         (fn_set_p x None m))))))"

text \<open>
  The memory after the first four assignments of \<^verbatim>\<open>fib_link(y, x)\<close>, which take \<open>y\<close>
  out of its ring, between \<open>l\<close> and \<open>a\<close>.
\<close>

definition unlink_mem :: "'k fmem \<Rightarrow> addr \<Rightarrow> addr \<Rightarrow> addr \<Rightarrow> 'k fmem" where
  "unlink_mem m y a l =
     fn_set_right y (Some y) (fn_set_left y (Some y)
       (fn_set_right l (Some a) (fn_set_left a (Some l) m)))"

text \<open>
  \<open>link tp tc\<close>: the tree \<open>tp\<close> with the tree \<open>tc\<close> as one more child, in the
  second place of the ring of children, where \<^verbatim>\<open>fib_link\<close> puts it.
\<close>

definition link :: "'k ftree \<Rightarrow> 'k ftree \<Rightarrow> 'k ftree" where
  "link tp tc = FNode (faddr tp) (fkey tp) (case kids tp of [] \<Rightarrow> [tc] | c # cs \<Rightarrow> c # tc # cs)"

text \<open>
  The invariant of the \<^verbatim>\<open>for\<close> loop of \<^verbatim>\<open>consolidate\<close>, with \<open>todo\<close> the nodes of
  \<^verbatim>\<open>orig_nodes\<close> from the current one on: the memory holds the trees \<open>G\<close> and their
  roots form a ring; a non-null entry \<open>A ! i\<close> is the root of a tree of \<open>G\<close> with
  \<open>i\<close> children and is not in \<open>todo\<close>; every root is in \<open>A\<close> or in \<open>todo\<close>;
  the number of children of any root plus the number of roots is at most the length of
  \<open>A\<close>, so no index the loop reaches is out of range.
\<close>

definition cinv :: "('k::linorder) fmem \<Rightarrow> ptr list \<Rightarrow> addr list \<Rightarrow> 'k ftree list \<Rightarrow> bool" where
  "cinv m A todo G \<longleftrightarrow>
     (\<exists>r. froots m G r) \<and> distinct todo \<and> set todo \<subseteq> faddr ` set G
     \<and> (\<forall>i<length A. \<forall>y. A ! i = Some y \<longrightarrow>
           y \<notin> set todo \<and> (\<exists>t\<in>set G. faddr t = y \<and> length (kids t) = i))
     \<and> (\<forall>t\<in>set G. faddr t \<in> set todo \<or> (\<exists>i<length A. A ! i = Some (faddr t)))
     \<and> (\<forall>t\<in>set G. length (kids t) + length G \<le> length A) \<and> length A < 2 ^ 64"

text \<open>
  The non-null entries of a vector of pointers, in index order.
\<close>

fun somes :: "'a option list \<Rightarrow> 'a list" where
  "somes [] = []"
| "somes (None # xs) = somes xs"
| "somes (Some x # xs) = x # somes xs"

text \<open>
  A memory with the two roots 0 and 3, where node 0 has the children 1 and 2 and node 2
  is marked.
\<close>

definition fmem_two_children :: "int fmem" where
  "fmem_two_children =
     (f_nodes fworld0)
       (0 := \<lparr>fn_p = None, fn_child = Some 1, fn_left = Some 3, fn_right = Some 3,
              fn_degree = 2, fn_key = 1, fn_mark = False\<rparr>,
        1 := \<lparr>fn_p = Some 0, fn_child = None, fn_left = Some 2, fn_right = Some 2,
              fn_degree = 0, fn_key = 2, fn_mark = False\<rparr>,
        2 := \<lparr>fn_p = Some 0, fn_child = None, fn_left = Some 1, fn_right = Some 1,
              fn_degree = 0, fn_key = 3, fn_mark = True\<rparr>,
        3 := \<lparr>fn_p = None, fn_child = None, fn_left = Some 0, fn_right = Some 0,
              fn_degree = 0, fn_key = 5, fn_mark = False\<rparr>)"

section \<open>Evaluating concrete runs\<close>

lemma bworld0_list: "bworld0 = \<lparr>b_nodes = bmem_of [], b_next = 0\<rparr>"
  by (simp add: bworld0_def bmem_of_def)

lemma bmem_of_apply: "a < length ns \<Longrightarrow> bmem_of ns a = ns ! a"
  by (simp add: bmem_of_def)

lemma bmem_of_upd: "a < length ns \<Longrightarrow> (bmem_of ns)(a := v) = bmem_of (ns[a := v])"
  by (auto simp: bmem_of_def fun_eq_iff)

lemma bmem_of_alloc: "a = length ns \<Longrightarrow> (bmem_of ns)(a := v) = bmem_of (ns @ [v])"
  by (auto simp: bmem_of_def fun_eq_iff nth_append)

lemma fworld0_list: "fworld0 = \<lparr>f_nodes = fmem_of [], f_next = 0\<rparr>"
  by (simp add: fworld0_def fmem_of_def)

lemma fmem_of_apply: "a < length ns \<Longrightarrow> fmem_of ns a = ns ! a"
  by (simp add: fmem_of_def)

lemma fmem_of_upd: "a < length ns \<Longrightarrow> (fmem_of ns)(a := v) = fmem_of (ns[a := v])"
  by (auto simp: fmem_of_def fun_eq_iff)

lemma fmem_of_alloc: "a = length ns \<Longrightarrow> (fmem_of ns)(a := v) = fmem_of (ns @ [v])"
  by (auto simp: fmem_of_def fun_eq_iff nth_append)

lemma list_update_Cons_numeral: "(x # xs)[numeral k := y] = x # xs[pred_numeral k := y]"
  by (simp add: numeral_eq_Suc)

lemma replicate_numeral: "replicate (numeral k) x = x # replicate (pred_numeral k) x"
  by (simp add: numeral_eq_Suc)

text \<open>The equations of the loops at a fuel written as a numeral.\<close>

lemmas fuel_numeral =
  merge_find_place.simps(2) [of "pred_numeral k" for k, folded numeral_eq_Suc]
  merge_loop.simps(2) [of "pred_numeral k" for k, folded numeral_eq_Suc]
  add_heap_head_loop.simps(2) [of "pred_numeral k" for k, folded numeral_eq_Suc]
  get_min_node_loop.simps(2) [of "pred_numeral k" for k, folded numeral_eq_Suc]
  pop_find_loop.simps(2) [of "pred_numeral k" for k, folded numeral_eq_Suc]
  pop_clear_loop.simps(2) [of "pred_numeral k" for k, folded numeral_eq_Suc]
  decrease_key_loop.simps(2) [of "pred_numeral k" for k, folded numeral_eq_Suc]
  bh_pop_all.simps(2) [of _ "pred_numeral k" for k, folded numeral_eq_Suc]
  bh_chain.simps(2) [of "pred_numeral k" for k, folded numeral_eq_Suc]
  consolidate_collect.simps(2) [of "pred_numeral k" for k, folded numeral_eq_Suc]
  consolidate_link_loop.simps(2) [of "pred_numeral k" for k, folded numeral_eq_Suc]
  cascading_cut.simps(2) [of "pred_numeral k" for k, folded numeral_eq_Suc]
  add_heap_loop.simps(2) [of "pred_numeral k" for k, folded numeral_eq_Suc]
  pop_splice_loop.simps(2) [of "pred_numeral k" for k, folded numeral_eq_Suc]
  fh_pop_all.simps(2) [of _ "pred_numeral k" for k, folded numeral_eq_Suc]
  fh_ring.simps(2) [of "pred_numeral k" for k, folded numeral_eq_Suc]

lemmas bn_set_defs = bn_set_p_def bn_set_child_def bn_set_sibling_def bn_set_degree_def
  bn_set_key_def

lemmas fn_set_defs = fn_set_p_def fn_set_child_def fn_set_left_def fn_set_right_def
  fn_set_degree_def fn_set_key_def fn_set_mark_def

lemmas bh_eval = bh_insert_def add_heap_head_def merge_heads_def link_nodes_def bn_set_defs
  bh_pop_def bh_add_heap_def bh_get_min_def get_min_node_def bh_decrease_key_def bh_size_def
  bh_roots_def bh_children_def bheap_new_def bworld0_list
  bmem_of_apply bmem_of_upd bmem_of_alloc list_update_Cons_numeral fuel_numeral
  numeral_2_eq_2 [symmetric] Let_def

lemmas fh_eval = fh_insert_def insert_node_def fib_link_def fib_link_child_def
  consolidate_def cut_def fn_set_defs fh_pop_def pop_unlink_def fh_add_heap_def
  fh_get_min_def fh_decrease_key_def fh_size_def fh_roots_def fheap_new_def fworld0_list
  fmem_of_apply fmem_of_upd fmem_of_alloc list_update_Cons_numeral replicate_numeral
  fuel_numeral numeral_2_eq_2 [symmetric] Let_def

section \<open>Basic facts about the model\<close>

text \<open>\<^verbatim>\<open>insert_node\<close> writes \<^verbatim>\<open>left\<close> and \<^verbatim>\<open>right\<close> members only.\<close>

lemma insert_node_p_mark:
  "insert_node x mn m = Inr (mn', m') \<Longrightarrow>
     fn_p (m' a) = fn_p (m a) \<and> fn_mark (m' a) = fn_mark (m a)"
  by (auto simp: insert_node_def fn_set_defs Let_def split: option.splits if_splits)

text \<open>
  \<^verbatim>\<open>cut(x, y)\<close> clears the parent link and the mark of \<open>x\<close>.
\<close>

lemma cut_clears:
  "cut x y mn m = Inr (mn', m') \<Longrightarrow> fn_p (m' x) = None \<and> \<not> fn_mark (m' x)"
  unfolding cut_def Let_def
  by (auto simp: fn_set_defs dest!: insert_node_p_mark [where a = x]
      split: option.splits if_splits sum.splits)

text \<open>The private methods of the Fibonacci heap throw nothing.\<close>

lemma insert_node_error: "insert_node x mn m = Inl e \<Longrightarrow> e = Null_deref"
  by (auto simp: insert_node_def Let_def split: option.splits)

lemma cut_error: "cut x y mn m = Inl e \<Longrightarrow> e = Null_deref"
  unfolding cut_def Let_def
  by (auto dest: insert_node_error split: option.splits if_splits sum.splits)

lemma cascading_cut_error: "cascading_cut n y mn m = Some (Inl e) \<Longrightarrow> e = Null_deref"
proof (induction n arbitrary: y mn m)
  case 0
  then show ?case by simp
next
  case (Suc n)
  then show ?case
    by (auto dest: cut_error split: option.splits if_splits sum.splits)
qed

text \<open>Inserting the only node of a one-node ring, as the minimum, changes nothing.\<close>

lemma insert_node_self_ring:
  assumes "fn_left (m a) = Some a" "fn_right (m a) = Some a"
  shows "insert_node (Some a) (Some a) m = Inr (Some a, m)"
proof -
  have "(m a)\<lparr>fn_left := Some a, fn_right := Some a\<rparr> = m a"
    using assms by (cases "m a") simp
  then have "m(a := (m a)\<lparr>fn_left := Some a, fn_right := Some a\<rparr>) = m"
    by simp
  then show ?thesis
    using assms by (simp add: insert_node_def fn_set_right_def fn_set_left_def)
qed

text \<open>
  So the loop of \<^verbatim>\<open>add_heap\<close> never ends once \<^verbatim>\<open>merged\<close> is the minimum of the receiving
  heap, alone in its ring, and not \<^verbatim>\<open>H.min\<close>: every further round is the same.
\<close>

lemma add_heap_loop_stuck:
  assumes "fn_left (m a) = Some a" "fn_right (m a) = Some a" "hmin \<noteq> Some a"
  shows "add_heap_loop n hmin (Some a) (Some a) m = None"
proof (induction n)
  case 0
  show ?case by simp
next
  case (Suc n)
  then show ?case using assms by (simp add: insert_node_self_ring)
qed

section \<open>Binomial heap: the order of the root chain\<close>

text \<open>
  C6. The root chain of a binomial heap is to be in strictly increasing degree order in
  every reachable state, also right after \<^verbatim>\<open>pop()\<close>. The source's \<^verbatim>\<open>pop\<close> hands the child
  chain of the removed root to \<^verbatim>\<open>add_heap_head\<close> as it is, in decreasing degree order:
  after inserting 1, 2, 3, 4 into a new heap (one tree of degree 2) and one \<^verbatim>\<open>pop()\<close>,
  the root chain is the former child chain, with degrees 1, 0.
\<close>

theorem bh_pop_root_degrees_decreasing:
  "(case bh_insert_list 4 [1, 2, 3, 4] bheap_new bworld0 of
      None \<Rightarrow> None
    | Some (xs, h, w) \<Rightarrow>
        (case bh_pop 4 h w of
           None \<Rightarrow> None
         | Some (r, h1, w1) \<Rightarrow>
             Some (r, bh_roots 4 h1 w1,
                   map_option (map (\<lambda>a. bn_degree (b_nodes w1 a))) (bh_roots 4 h1 w1))))
   = Some (Inr 1, Some [2, 1], Some [1, 0])"
  by (simp add: bh_eval)

section \<open>Binomial heap: \<^verbatim>\<open>decrease_key\<close>\<close>

text \<open>
  C7. \<^verbatim>\<open>decrease_key\<close> of the binomial heap is to change keys only, leaving every parent,
  child and sibling link and the caller's handle as they were. In the source the locals
  \<open>y\<close> and \<open>z\<close> are references to the caller's handle and to the member \<open>p\<close> of the
  node, so each round of the loop stores the parent into the handle and the grandparent
  into the node's parent link. After inserting 1, 2 (node 1, key 2, is the child of node 0,
  key 1), \<^verbatim>\<open>decrease_key\<close> of the handle of node 1 to 0 swaps the two keys, leaves the handle
  at node 0, and sets the parent link of node 1 to null.
\<close>

theorem bh_decrease_key_rewrites_parent_link:
  "(case bh_insert_list 2 [1, 2] bheap_new bworld0 of
      None \<Rightarrow> None
    | Some (xs, h, w) \<Rightarrow>
        (case bh_decrease_key 2 (Some 1) 0 h w of
           None \<Rightarrow> None
         | Some (r, x', h', w') \<Rightarrow>
             Some (xs, bn_p (b_nodes w 1), bh_children 2 w 0,
                   r, x', bn_p (b_nodes w' 1), bh_children 2 w' 0,
                   bn_key (b_nodes w' 0), bn_key (b_nodes w' 1))))
   = Some ([0, 1], Some 0, Some [1], Inr (), Some 0, None, Some [1], 0, 1)"
  by (simp add: bh_eval)

text \<open>
  C2. Heap order is to hold in every reachable state of either variant. In the binomial
  heap the parent link that \<^verbatim>\<open>decrease_key\<close> overwrites (see C7) misleads the next
  \<^verbatim>\<open>decrease_key\<close> on that node. Insert 1, 2, 3, 4 (node 0 is the root, node 2 its child,
  node 3 the child of node 2); decrease the key of node 3 from 4 to 2, then, through a copy
  of the same handle, to 0. The first call leaves the parent link of node 3 at node 0, so
  the second call swaps the key with node 0 directly: node 3 stays in the child chain of
  node 2 with key 1 below key 2 of node 2, and popping until the heap is empty returns
  0, 2, 1, 2.
\<close>

theorem bh_decrease_key_breaks_heap_order:
  "(case bh_insert_list 4 [1, 2, 3, 4] bheap_new bworld0 of
      None \<Rightarrow> None
    | Some (xs, h, w) \<Rightarrow>
        (case bh_decrease_key 4 (Some 3) 2 h w of
           None \<Rightarrow> None
         | Some (r1, x1, h1, w1) \<Rightarrow>
             (case bh_decrease_key 4 (Some 3) 0 h1 w1 of
                None \<Rightarrow> None
              | Some (r2, x2, h2, w2) \<Rightarrow>
                  (case bh_pop_all 4 5 h2 w2 of
                     None \<Rightarrow> None
                   | Some (rs, h3, w3) \<Rightarrow>
                       Some (bh_children 4 w 2, bn_p (b_nodes w 3), r1, bn_p (b_nodes w1 3),
                             r2, bn_p (b_nodes w2 3), bh_roots 4 h2 w2, bh_children 4 w2 0,
                             bh_children 4 w2 2, bn_key (b_nodes w2 2),
                             bn_key (b_nodes w2 3), rs)))))
   = Some (Some [3], Some 2, Inr (), Some 0, Inr (), None, Some [0], Some [2, 1],
           Some [3], 2, 1, [Inr 0, Inr 2, Inr 1, Inr 2])"
  by (simp add: bh_eval)

section \<open>Meld and size\<close>

lemma bh_meld_example:
  "(case bh_insert_list 4 [1, 4, 9] bheap_new bworld0 of
      None \<Rightarrow> None
    | Some (xa, hA, w1) \<Rightarrow>
        (case bh_insert_list 4 [2, 3, 7] bheap_new w1 of
           None \<Rightarrow> None
         | Some (xb, hB, w2) \<Rightarrow>
             (case bh_add_heap 8 hB hA w2 of
                None \<Rightarrow> None
              | Some (hA', hB', w3) \<Rightarrow>
                  (case bh_pop_all 8 8 hA' w3 of
                     None \<Rightarrow> None
                   | Some (rs, hA'', w4) \<Rightarrow>
                       Some (bh_size hA', bh_get_min 8 hA' w3, rs, bh_size hA'',
                             bh_roots 8 hA'' w4, map_option fst (bh_pop 8 hA'' w4))))))
   = Some (3, Some (Inl Dangling_reference), [Inr 1, Inr 2, Inr 3], 0, Some [5, 1],
           Some (Inl (Out_of_range ''Pop from empty heap'')))"
  by (simp add: bh_eval)

lemma fh_meld_example:
  "(case fh_insert_list [1, 4, 9] fheap_new fworld0 of
      Inl e \<Rightarrow> False
    | Inr (xa, hA, w1) \<Rightarrow>
        (case fh_insert_list [2, 3, 7] fheap_new w1 of
           Inl e \<Rightarrow> False
         | Inr (xb, hB, w2) \<Rightarrow> fh_add_heap n hB hA w2 = None))"
proof (cases n)
  case 0
  then show ?thesis by (simp add: fh_eval)
next
  case (Suc n1)
  show ?thesis
  proof (cases n1)
    case 0
    with Suc show ?thesis by (simp add: fh_eval)
  next
    case (Suc n2)
    with \<open>n = Suc n1\<close> show ?thesis
      by (simp add: fh_eval add_heap_loop_stuck)
  qed
qed

text \<open>
  C3. Melding the heap of 1, 4, 9 with the heap of 2, 3, 7 is to give a heap with minimum
  1 whose pops return 1, 2, 3, 4, 7, 9. Binomial heap: \<^verbatim>\<open>add_heap\<close> links the six nodes,
  but \<^verbatim>\<open>_size\<close> stays 3, so popping until \<^verbatim>\<open>size()\<close> is 0 returns 1, 2, 3 only, two
  roots (nodes 5 and 1) are left in the heap, and one more \<^verbatim>\<open>pop()\<close> throws;
  \<^verbatim>\<open>get_min()\<close> on the melded heap reads through the dangling reference of
  \<^verbatim>\<open>get_min_node\<close> and has no defined result. Fibonacci heap: \<^verbatim>\<open>add_heap\<close> does not
  return, whatever the fuel \<open>n\<close>.
\<close>

theorem meld_example_fails:
  "(case bh_insert_list 4 [1, 4, 9] bheap_new bworld0 of
      None \<Rightarrow> None
    | Some (xa, hA, w1) \<Rightarrow>
        (case bh_insert_list 4 [2, 3, 7] bheap_new w1 of
           None \<Rightarrow> None
         | Some (xb, hB, w2) \<Rightarrow>
             (case bh_add_heap 8 hB hA w2 of
                None \<Rightarrow> None
              | Some (hA', hB', w3) \<Rightarrow>
                  (case bh_pop_all 8 8 hA' w3 of
                     None \<Rightarrow> None
                   | Some (rs, hA'', w4) \<Rightarrow>
                       Some (bh_size hA', bh_get_min 8 hA' w3, rs, bh_size hA'',
                             bh_roots 8 hA'' w4, map_option fst (bh_pop 8 hA'' w4))))))
   = Some (3, Some (Inl Dangling_reference), [Inr 1, Inr 2, Inr 3], 0, Some [5, 1],
           Some (Inl (Out_of_range ''Pop from empty heap'')))
   \<and> (case fh_insert_list [1, 4, 9] fheap_new fworld0 of
        Inl e \<Rightarrow> False
      | Inr (xa, hA, w1) \<Rightarrow>
          (case fh_insert_list [2, 3, 7] fheap_new w1 of
             Inl e \<Rightarrow> False
           | Inr (xb, hB, w2) \<Rightarrow> fh_add_heap n hB hA w2 = None))"
  using bh_meld_example fh_meld_example [of n] by (rule conjI)

text \<open>
  C4. \<^verbatim>\<open>size()\<close> is to count the keys in the heap, \<^verbatim>\<open>A.add_heap(B)\<close> adding the size of
  \<open>B\<close> to that of \<open>A\<close> and leaving \<open>B\<close> with size 0. Neither \<^verbatim>\<open>add_heap\<close> writes a size.
  Binomial heap: melding the heap of 2 into the heap of 1 gives one tree of two nodes, and
  both heaps report size 1. Fibonacci heap: melding the heap of 2 into an empty heap leaves
  sizes 0 and 1; the receiving heap then pops 2, and its size wraps around to
  \<open>2^64 - 1\<close>.
\<close>

theorem add_heap_leaves_sizes:
  "(case bh_insert_list 2 [1] bheap_new bworld0 of
      None \<Rightarrow> None
    | Some (xa, hA, w1) \<Rightarrow>
        (case bh_insert_list 2 [2] bheap_new w1 of
           None \<Rightarrow> None
         | Some (xb, hB, w2) \<Rightarrow>
             (case bh_add_heap 2 hB hA w2 of
                None \<Rightarrow> None
              | Some (hA', hB', w3) \<Rightarrow>
                  Some (bh_roots 2 hA' w3, bh_children 2 w3 0, bh_size hA', bh_size hB'))))
   = Some (Some [0], Some [1], 1, 1)
   \<and> (case fh_insert_list [2] fheap_new fworld0 of
        Inl e \<Rightarrow> None
      | Inr (xb, hB, w1) \<Rightarrow>
          (case fh_add_heap 2 hB fheap_new w1 of
             None \<Rightarrow> None
           | Some (r, hA', hB', w2) \<Rightarrow>
               (case fh_pop 2 hA' w2 of
                  None \<Rightarrow> None
                | Some (k, hA'', w3) \<Rightarrow>
                    Some (r, fh_roots 2 hA' w2, fh_size hA', fh_size hB', k, fh_size hA''))))
     = Some (Inr (), Some [0], 0, 1, Inr 2, 18446744073709551615)"
  by (simp add: bh_eval fh_eval)

section \<open>Termination\<close>

text \<open>
  C5. Every operation is to terminate on every reachable state, \<^verbatim>\<open>add_heap\<close> of the
  Fibonacci heap in particular. \<^verbatim>\<open>add_heap\<close> reads \<^verbatim>\<open>merged->right\<close> after \<^verbatim>\<open>insert_node\<close>
  has set it to the receiving heap's minimum, so it leaves the ring of \<open>H\<close> after the first
  node. With the heap of 1 receiving the heap of 2, the second round inserts the minimum
  itself, which closes it into a one-node ring, and from then on every round is the same:
  the call returns for no amount of fuel \<open>n\<close>.
\<close>

theorem fh_add_heap_diverges:
  "(case fh_insert_list [1] fheap_new fworld0 of
      Inl e \<Rightarrow> False
    | Inr (xa, hA, w1) \<Rightarrow>
        (case fh_insert_list [2] fheap_new w1 of
           Inl e \<Rightarrow> False
         | Inr (xb, hB, w2) \<Rightarrow> fh_add_heap n hB hA w2 = None))"
proof (cases n)
  case 0
  then show ?thesis by (simp add: fh_eval)
next
  case (Suc n1)
  show ?thesis
  proof (cases n1)
    case 0
    with Suc show ?thesis by (simp add: fh_eval)
  next
    case (Suc n2)
    with \<open>n = Suc n1\<close> show ?thesis
      by (simp add: fh_eval add_heap_loop_stuck)
  qed
qed

section \<open>Errors\<close>

text \<open>
  C9. \<^verbatim>\<open>get_min()\<close> and \<^verbatim>\<open>pop()\<close> on an empty heap are to fail with an error and to leave
  the heap unchanged. On a new heap both \<^verbatim>\<open>pop\<close> methods throw \<^verbatim>\<open>std::out_of_range\<close> and
  change nothing, but both \<^verbatim>\<open>get_min\<close> methods dereference the null \<^verbatim>\<open>head\<close> or \<^verbatim>\<open>min\<close>.
\<close>

theorem get_min_on_new_heap_null_deref:
  "bh_get_min n bheap_new w = Some (Inl Null_deref)
   \<and> fh_get_min fheap_new w' = Inl Null_deref
   \<and> bh_pop n bheap_new w = Some (Inl (Out_of_range ''Pop from empty heap''), bheap_new, w)
   \<and> fh_pop n fheap_new w'
       = Some (Inl (Out_of_range ''Pop from empty FibHeap''), fheap_new, w')"
  by (simp add: bh_get_min_def get_min_node_def bheap_new_def fh_get_min_def fheap_new_def
      bh_pop_def fh_pop_def)

subsection \<open>\<^verbatim>\<open>decrease_key\<close> returns\<close>

text \<open>
  The loop of the binomial heap's \<^verbatim>\<open>decrease_key\<close> walks up the parent links. It ends
  when these are well-founded: with a rank that every parent link lowers, fuel above the
  rank of the node suffices.
\<close>

lemma decrease_key_loop_returns:
  fixes m :: "('k::linorder) bmem"
  assumes "\<forall>a b. bn_p (m a) = Some b \<longrightarrow> rank b < rank a"
    and "0 < n" and "\<forall>z. bn_p (m x0) = Some z \<longrightarrow> Suc (rank z) < n"
  shows "\<exists>y m'. decrease_key_loop n m x0 y0 = Some (y, m')"
  using assms
proof (induction n arbitrary: m y0)
  case 0
  then show ?case by simp
next
  case (Suc n)
  show ?case
  proof (cases "bn_p (m x0)")
    case None
    then show ?thesis by simp
  next
    case (Some z)
    show ?thesis
    proof (cases "bn_key (m y0) < bn_key (m z)")
      case False
      with Some show ?thesis by simp
    next
      case True
      define m1 where "m1 = bn_set_key z (bn_key (m y0)) (bn_set_key y0 (bn_key (m z)) m)"
      define m2 where "m2 = bn_set_p x0 (bn_p (m1 z)) m1"
      have p1: "bn_p (m1 a) = bn_p (m a)" for a
        by (simp add: m1_def bn_set_defs)
      have rz: "rank z < rank x0"
        using Suc.prems(1) Some by blast
      have inv: "\<forall>a b. bn_p (m2 a) = Some b \<longrightarrow> rank b < rank a"
      proof (intro allI impI)
        fix a b
        assume ab: "bn_p (m2 a) = Some b"
        show "rank b < rank a"
        proof (cases "a = x0")
          case True
          with ab have "bn_p (m z) = Some b"
            by (simp add: m2_def bn_set_defs p1)
          with Suc.prems(1) have "rank b < rank z" by blast
          with rz True show ?thesis by simp
        next
          case False
          with ab have "bn_p (m a) = Some b"
            by (simp add: m2_def bn_set_defs p1)
          with Suc.prems(1) show ?thesis by blast
        qed
      qed
      have n0: "0 < n" using Suc.prems(3) Some by auto
      have "\<forall>g. bn_p (m2 x0) = Some g \<longrightarrow> Suc (rank g) < n"
      proof (intro allI impI)
        fix g
        assume "bn_p (m2 x0) = Some g"
        then have "bn_p (m z) = Some g"
          by (simp add: m2_def bn_set_defs p1)
        with Suc.prems(1) have "rank g < rank z" by blast
        moreover have "Suc (rank z) < Suc n" using Suc.prems(3) Some by blast
        ultimately show "Suc (rank g) < n" by simp
      qed
      from Suc.IH [OF inv n0 this, of z] Some True show ?thesis
        by (simp add: Let_def m1_def m2_def)
    qed
  qed
qed

lemma bh_decrease_key_returns:
  fixes w :: "('k::linorder) bworld"
  assumes "\<not> bn_key (b_nodes w x) < k"
    and "\<forall>a b. bn_p (b_nodes w a) = Some b \<longrightarrow> rank b < rank a"
    and "rank x < n"
  shows "\<exists>y m'. bh_decrease_key n (Some x) k h w = Some (Inr (), Some y, h, w\<lparr>b_nodes := m'\<rparr>)"
proof -
  define m where "m = bn_set_key x k (b_nodes w)"
  have p: "bn_p (m a) = bn_p (b_nodes w a)" for a
    by (simp add: m_def bn_set_defs)
  have "\<forall>a b. bn_p (m a) = Some b \<longrightarrow> rank b < rank a"
    using assms(2) p by simp
  moreover have "\<forall>z. bn_p (m x) = Some z \<longrightarrow> Suc (rank z) < n"
    using assms(2,3) p by (metis Suc_leI le_less_trans)
  moreover have "0 < n" using assms(3) by simp
  ultimately obtain y m' where "decrease_key_loop n m x x = Some (y, m')"
    using decrease_key_loop_returns by blast
  with assms(1) show ?thesis
    by (auto simp: bh_decrease_key_def m_def)
qed

text \<open>
  The Fibonacci heap's \<^verbatim>\<open>decrease_key\<close> dereferences \<^verbatim>\<open>left\<close> and \<^verbatim>\<open>right\<close> links and
  \<^verbatim>\<open>min\<close>, and \<^verbatim>\<open>cascading_cut\<close> walks up the parent links. In a closed memory, with a
  non-empty heap and well-founded parent links, it returns.
\<close>

lemma fclosedD:
  assumes "fclosed nx m" "a < nx"
  obtains l r where "fn_left (m a) = Some l" "l < nx" "fn_right (m a) = Some r" "r < nx"
  using assms unfolding fclosed_def by blast

lemma fclosed_upd:
  assumes "fclosed nx m"
    and "\<exists>l<nx. fn_left v = Some l" "\<exists>r<nx. fn_right v = Some r"
    and "\<forall>q. fn_p v = Some q \<longrightarrow> q < nx"
  shows "fclosed nx (m(a := v))"
  using assms unfolding fclosed_def by auto

lemma fclosed_set:
  assumes "fclosed nx m" "a < nx"
  shows "b < nx \<Longrightarrow> fclosed nx (fn_set_left a (Some b) m)"
    "b < nx \<Longrightarrow> fclosed nx (fn_set_right a (Some b) m)"
    "fclosed nx (fn_set_child a c m)"
    "fclosed nx (fn_set_degree a d m)"
    "fclosed nx (fn_set_mark a mk m)"
    "fclosed nx (fn_set_key a k m)"
    "fclosed nx (fn_set_p a None m)"
  using assms unfolding fclosed_def fn_set_defs by auto

lemma insert_node_returns:
  fixes m :: "('k::linorder) fmem"
  assumes "fclosed nx m" "x < nx" "\<forall>a. mn = Some a \<longrightarrow> a < nx"
  shows "\<exists>a m'. insert_node (Some x) mn m = Inr (Some a, m') \<and> a < nx \<and> fclosed nx m'"
proof -
  define mn' where "mn' = (case mn of None \<Rightarrow> x | Some a \<Rightarrow> a)"
  have mn': "mn' < nx" using assms(2,3) by (auto simp: mn'_def split: option.splits)
  from fclosedD [OF assms(1) mn'] obtain l where l: "fn_left (m mn') = Some l" "l < nx"
    by blast
  define m4 where "m4 = fn_set_right x (Some mn') (fn_set_left mn' (Some x)
     (fn_set_left x (Some l) (fn_set_right l (Some x) m)))"
  have "fclosed nx m4"
    unfolding m4_def using assms(1,2) l(2) mn' by (intro fclosed_set) auto
  moreover have "insert_node (Some x) mn m
      = Inr (if fn_key (m4 x) < fn_key (m4 mn') then Some x else Some mn', m4)"
    using l by (simp add: insert_node_def mn'_def [symmetric] m4_def Let_def)
  ultimately show ?thesis using assms(2) mn' by auto
qed

lemma cut_returns:
  fixes m :: "('k::linorder) fmem"
  assumes "fclosed nx m" "x < nx" "y < nx" "\<forall>a. mn = Some a \<longrightarrow> a < nx"
  shows "\<exists>a m'. cut x y mn m = Inr (Some a, m') \<and> a < nx \<and> fclosed nx m'
           \<and> (\<forall>b. fn_p (m' b) = (if b = x then None else fn_p (m b)))
           \<and> (\<forall>b. b \<noteq> x \<longrightarrow> fn_mark (m' b) = fn_mark (m b))"
proof -
  from fclosedD [OF assms(1,2)] obtain xl xr where
    x: "fn_left (m x) = Some xl" "xl < nx" "fn_right (m x) = Some xr" "xr < nx"
    by blast
  define m3 where "m3 =
    (if xr \<noteq> x
     then fn_set_right xl (Some xr) (fn_set_left xr (Some xl) (fn_set_child y (Some xr) m))
     else fn_set_child y None m)"
  define m6 where
    "m6 = fn_set_mark x False (fn_set_p x None (fn_set_degree y (fn_degree (m3 y) - 1) m3))"
  have c3: "fclosed nx m3"
    unfolding m3_def using assms(1,3) x by (auto intro!: fclosed_set)
  have c6: "fclosed nx m6"
    unfolding m6_def using c3 assms(2,3) by (intro fclosed_set) auto
  have p6: "fn_p (m6 b) = (if b = x then None else fn_p (m b))" for b
    by (simp add: m6_def m3_def fn_set_defs)
  have k6: "b \<noteq> x \<Longrightarrow> fn_mark (m6 b) = fn_mark (m b)" for b
    by (simp add: m6_def m3_def fn_set_defs)
  have e: "cut x y mn m = insert_node (Some x) mn m6"
    using x by (auto simp: cut_def m6_def m3_def Let_def fn_set_defs)
  from insert_node_returns [OF c6 assms(2,4)] obtain a m' where
    i: "insert_node (Some x) mn m6 = Inr (Some a, m')" "a < nx" "fclosed nx m'"
    by blast
  from insert_node_p_mark [OF i(1)] p6 k6 i e show ?thesis
    by auto
qed

lemma cascading_cut_returns:
  fixes m :: "('k::linorder) fmem"
  assumes "fclosed nx m" "y < nx" "mn = Some a0" "a0 < nx"
    and "\<forall>a b. fn_p (m a) = Some b \<longrightarrow> rank b < rank a"
    and "rank y < n"
  shows "\<exists>a m'. cascading_cut n y mn m = Some (Inr (Some a, m'))"
  using assms
proof (induction n arbitrary: m y mn a0)
  case 0
  then show ?case by simp
next
  case (Suc n)
  show ?case
  proof (cases "fn_p (m y)")
    case None
    with Suc.prems(3) show ?thesis by simp
  next
    case (Some z)
    have z: "z < nx" using Suc.prems(1,2) Some unfolding fclosed_def by blast
    have rz: "rank z < n" using Suc.prems(5,6) Some by (metis less_Suc_eq less_trans)
    show ?thesis
    proof (cases "fn_mark (m y)")
      case False
      with Some Suc.prems(3) show ?thesis by simp
    next
      case True
      from cut_returns [OF Suc.prems(1,2) z, of mn] Suc.prems(3,4)
      obtain a m' where c: "cut y z mn m = Inr (Some a, m')" "a < nx" "fclosed nx m'"
        "\<forall>b. fn_p (m' b) = (if b = y then None else fn_p (m b))"
        by auto
      have "\<forall>a b. fn_p (m' a) = Some b \<longrightarrow> rank b < rank a"
        using c(4) Suc.prems(5) by (metis option.distinct(1))
      from Suc.IH [OF c(3) z refl c(2) this rz] obtain a' m'' where
        "cascading_cut n z (Some a) m' = Some (Inr (Some a', m''))" by blast
      with Some True c(1) show ?thesis by simp
    qed
  qed
qed

lemma fh_decrease_key_returns:
  fixes w :: "('k::linorder) fworld"
  assumes "\<not> fn_key (f_nodes w x) < k"
    and "fclosed (f_next w) (f_nodes w)" "x < f_next w"
    and "f_min h = Some a0" "a0 < f_next w"
    and "\<forall>a b. fn_p (f_nodes w a) = Some b \<longrightarrow> rank b < rank a"
    and "rank x < n"
  shows "\<exists>h' w'. fh_decrease_key n (Some x) k h w = Some (Inr (), h', w')"
proof -
  define m where "m = fn_set_key x k (f_nodes w)"
  have cm: "fclosed (f_next w) m"
    unfolding m_def using assms(2,3) by (intro fclosed_set)
  have pm: "fn_p (m a) = fn_p (f_nodes w a)" for a
    by (simp add: m_def fn_set_defs)
  have rk: "\<forall>a b. fn_p (m a) = Some b \<longrightarrow> rank b < rank a"
    using assms(6) pm by simp
  define r where "r =
    (case fn_p (m x) of
       None \<Rightarrow> Some (Inr (f_min h, m))
     | Some y \<Rightarrow>
         if fn_key (m x) < fn_key (m y)
         then (case cut x y (f_min h) m of
                 Inl e \<Rightarrow> Some (Inl e)
               | Inr (mn1, m1) \<Rightarrow> cascading_cut n y mn1 m1)
         else Some (Inr (f_min h, m)))"
  have "\<exists>a m'. r = Some (Inr (Some a, m'))"
  proof (cases "fn_p (m x)")
    case None
    then show ?thesis using assms(4) by (simp add: r_def)
  next
    case (Some y)
    have y: "y < f_next w" using cm assms(3) Some unfolding fclosed_def by blast
    have ry: "rank y < n" using rk Some assms(7) by (metis less_trans)
    show ?thesis
    proof (cases "fn_key (m x) < fn_key (m y)")
      case False
      with Some assms(4) show ?thesis by (simp add: r_def)
    next
      case True
      from cut_returns [OF cm assms(3) y, of "f_min h"] assms(4,5)
      obtain a m' where c: "cut x y (f_min h) m = Inr (Some a, m')" "a < f_next w"
        "fclosed (f_next w) m'" "\<forall>b. fn_p (m' b) = (if b = x then None else fn_p (m b))"
        by auto
      have "\<forall>a b. fn_p (m' a) = Some b \<longrightarrow> rank b < rank a"
        using c(4) rk by (metis option.distinct(1))
      from cascading_cut_returns [OF c(3) y refl c(2) this ry] Some True c(1)
      show ?thesis by (simp add: r_def)
    qed
  qed
  then obtain a m' where "r = Some (Inr (Some a, m'))" by blast
  then show ?thesis
    using assms(1) unfolding r_def m_def
    by (simp add: fh_decrease_key_def Let_def)
qed

text \<open>
  C10. \<^verbatim>\<open>decrease_key\<close> with a new key above the node's key throws before it writes
  anything: the outcome is the exception, and the handle, the heap object and the memory
  are those of the call. With a new key that is not above the node's key it throws nothing:
  the binomial heap's method has no error outcome at all, the Fibonacci heap's method none
  that is an exception; and on a well-formed heap (parent links well-founded, for the
  Fibonacci heap also a closed memory and a non-empty root ring) the call returns, given
  fuel above the rank of the node.
\<close>

theorem decrease_key_rejects_increase:
  "(bn_key (b_nodes w x) < k \<longrightarrow>
      bh_decrease_key n (Some x) k h w
        = Some (Inl (Out_of_range ''Bheap key can't be increased''), Some x, h, w))
   \<and> (fn_key (f_nodes w' x') < k' \<longrightarrow>
      fh_decrease_key n (Some x') k' h' w'
        = Some (Inl (Out_of_range ''FibHeap key can't be increased''), h', w'))
   \<and> (\<not> bn_key (b_nodes w x) < k \<longrightarrow>
      (\<forall>e st. bh_decrease_key n (Some x) k h w \<noteq> Some (Inl e, st)))
   \<and> (\<not> fn_key (f_nodes w' x') < k' \<longrightarrow>
      (\<forall>msg st. fh_decrease_key n (Some x') k' h' w' \<noteq> Some (Inl (Out_of_range msg), st)))
   \<and> (\<not> bn_key (b_nodes w x) < k
        \<and> (\<forall>a b. bn_p (b_nodes w a) = Some b \<longrightarrow> rank b < rank a) \<and> rank x < n \<longrightarrow>
      (\<exists>y m'. bh_decrease_key n (Some x) k h w
                = Some (Inr (), Some y, h, w\<lparr>b_nodes := m'\<rparr>)))
   \<and> (\<not> fn_key (f_nodes w' x') < k'
        \<and> fclosed (f_next w') (f_nodes w') \<and> x' < f_next w'
        \<and> (\<exists>a0<f_next w'. f_min h' = Some a0)
        \<and> (\<forall>a b. fn_p (f_nodes w' a) = Some b \<longrightarrow> rank' b < rank' a) \<and> rank' x' < n \<longrightarrow>
      (\<exists>h'' w''. fh_decrease_key n (Some x') k' h' w' = Some (Inr (), h'', w'')))"
proof (intro conjI impI allI)
  assume "bn_key (b_nodes w x) < k"
  then show "bh_decrease_key n (Some x) k h w
      = Some (Inl (Out_of_range ''Bheap key can't be increased''), Some x, h, w)"
    by (simp add: bh_decrease_key_def)
next
  assume "fn_key (f_nodes w' x') < k'"
  then show "fh_decrease_key n (Some x') k' h' w'
      = Some (Inl (Out_of_range ''FibHeap key can't be increased''), h', w')"
    by (simp add: fh_decrease_key_def)
next
  fix e st
  assume "\<not> bn_key (b_nodes w x) < k"
  then show "bh_decrease_key n (Some x) k h w \<noteq> Some (Inl e, st)"
    by (simp add: bh_decrease_key_def split: option.splits)
next
  fix msg st
  assume "\<not> fn_key (f_nodes w' x') < k'"
  then show "fh_decrease_key n (Some x') k' h' w' \<noteq> Some (Inl (Out_of_range msg), st)"
    by (auto simp: fh_decrease_key_def Let_def dest: cut_error cascading_cut_error
        split: option.splits sum.splits if_splits)
next
  assume "\<not> bn_key (b_nodes w x) < k
        \<and> (\<forall>a b. bn_p (b_nodes w a) = Some b \<longrightarrow> rank b < rank a) \<and> rank x < n"
  then show "\<exists>y m'. bh_decrease_key n (Some x) k h w
      = Some (Inr (), Some y, h, w\<lparr>b_nodes := m'\<rparr>)"
    using bh_decrease_key_returns [of w x k rank n h] by blast
next
  assume "\<not> fn_key (f_nodes w' x') < k'
        \<and> fclosed (f_next w') (f_nodes w') \<and> x' < f_next w'
        \<and> (\<exists>a0<f_next w'. f_min h' = Some a0)
        \<and> (\<forall>a b. fn_p (f_nodes w' a) = Some b \<longrightarrow> rank' b < rank' a) \<and> rank' x' < n"
  then show "\<exists>h'' w''. fh_decrease_key n (Some x') k' h' w' = Some (Inr (), h'', w'')"
    using fh_decrease_key_returns [of w' x' k' h' _ rank' n] by blast
qed

text \<open>
  At concrete calls, on nodes that have a parent. Binomial heap of 1, 2: on the node of
  2, the new key 3 is rejected and the new key 0 is accepted. Fibonacci heap of 0, 1, 2
  after a pop (node 2 is the child of node 1): the same on node 2.
\<close>

theorem decrease_key_rejects_increase_witness:
  "(case bh_insert_list 2 [1, 2] bheap_new bworld0 of
      None \<Rightarrow> False
    | Some (xs, h, w) \<Rightarrow>
        bn_p (b_nodes w 1) = Some 0
        \<and> bn_key (b_nodes w 1) < 3
        \<and> bh_decrease_key 3 (Some 1) 3 h w
            = Some (Inl (Out_of_range ''Bheap key can't be increased''), Some 1, h, w)
        \<and> \<not> bn_key (b_nodes w 1) < 0
        \<and> (\<exists>y m'. bh_decrease_key 3 (Some 1) 0 h w
                    = Some (Inr (), Some y, h, w\<lparr>b_nodes := m'\<rparr>)))
   \<and> (case fh_insert_list [0, 1, 2] fheap_new fworld0 of
        Inl e \<Rightarrow> False
      | Inr (xs, h0, w0) \<Rightarrow>
          (case fh_pop 3 h0 w0 of
             Some (Inr _, h, w) \<Rightarrow>
               fn_p (f_nodes w 2) = Some 1
               \<and> fn_key (f_nodes w 2) < 3
               \<and> fh_decrease_key 3 (Some 2) 3 h w
                   = Some (Inl (Out_of_range ''FibHeap key can't be increased''), h, w)
               \<and> \<not> fn_key (f_nodes w 2) < 0
               \<and> (\<exists>h'' w''. fh_decrease_key 3 (Some 2) 0 h w = Some (Inr (), h'', w''))
           | _ \<Rightarrow> False))"
proof -
  define h :: bheap where "h = \<lparr>b_head = Some 0, b_size = 2\<rparr>"
  define w :: "int bworld" where "w = \<lparr>b_nodes = bmem_of
      [\<lparr>bn_p = None, bn_child = Some 1, bn_sibling = None, bn_degree = 1, bn_key = 1\<rparr>,
       \<lparr>bn_p = Some 0, bn_child = None, bn_sibling = None, bn_degree = 0, bn_key = 2\<rparr>],
      b_next = 2\<rparr>"
  define h0 :: fheap where "h0 = \<lparr>f_min = Some 0, f_size = 3\<rparr>"
  define w0 :: "int fworld" where "w0 = \<lparr>f_nodes = fmem_of
      [\<lparr>fn_p = None, fn_child = None, fn_left = Some 2, fn_right = Some 1,
        fn_degree = 0, fn_key = 0, fn_mark = False\<rparr>,
       \<lparr>fn_p = None, fn_child = None, fn_left = Some 0, fn_right = Some 2,
        fn_degree = 0, fn_key = 1, fn_mark = False\<rparr>,
       \<lparr>fn_p = None, fn_child = None, fn_left = Some 1, fn_right = Some 0,
        fn_degree = 0, fn_key = 2, fn_mark = False\<rparr>],
      f_next = 3\<rparr>"
  define h' :: fheap where "h' = \<lparr>f_min = Some 1, f_size = 2\<rparr>"
  define w' :: "int fworld" where "w' = \<lparr>f_nodes = fmem_of
      [\<lparr>fn_p = None, fn_child = None, fn_left = Some 2, fn_right = Some 1,
        fn_degree = 0, fn_key = 0, fn_mark = False\<rparr>,
       \<lparr>fn_p = None, fn_child = Some 2, fn_left = Some 1, fn_right = Some 1,
        fn_degree = 1, fn_key = 1, fn_mark = False\<rparr>,
       \<lparr>fn_p = Some 1, fn_child = None, fn_left = Some 2, fn_right = Some 2,
        fn_degree = 0, fn_key = 2, fn_mark = False\<rparr>],
      f_next = 3\<rparr>"
  have b: "bh_insert_list 2 [1, 2] bheap_new bworld0 = Some ([0, 1], h, w)"
    by (simp add: bh_eval h_def w_def)
  have f: "fh_insert_list [0, 1, 2] fheap_new fworld0 = Inr ([0, 1, 2], h0, w0)"
    by (simp add: fh_eval h0_def w0_def)
  have f2: "fh_pop 3 h0 w0 = Some (Inr 0, h', w')"
    by (simp add: fh_eval h0_def w0_def h'_def w'_def)
  have kb: "bn_p (b_nodes w 1) = Some 0" "bn_key (b_nodes w 1) = 2"
    by (simp_all add: w_def bmem_of_def)
  have rb: "\<forall>a b. bn_p (b_nodes w a) = Some b \<longrightarrow> b < a"
    by (auto simp: w_def bmem_of_def bworld0_def nth_Cons' split: if_splits)
  have kf: "fn_p (f_nodes w' 2) = Some 1" "fn_key (f_nodes w' 2) = 2"
    by (simp_all add: w'_def fmem_of_def)
  have rf: "\<forall>a b. fn_p (f_nodes w' a) = Some b \<longrightarrow> b < a"
    by (auto simp: w'_def fmem_of_def fworld0_def nth_Cons' split: if_splits)
  have nx: "f_next w' = 3" and mn: "f_min h' = Some 1"
    by (simp_all add: w'_def h'_def)
  have cf: "fclosed (f_next w') (f_nodes w')"
    by (auto simp: fclosed_def w'_def fmem_of_def nth_Cons' less_Suc_eq numeral_3_eq_3)
  note t = decrease_key_rejects_increase [of w 1 _ 3 h w' 2 _ h' "\<lambda>a. a" "\<lambda>a. a"]
  have "bn_key (b_nodes w 1) < 3" "\<not> bn_key (b_nodes w 1) < 0"
    "fn_key (f_nodes w' 2) < 3" "\<not> fn_key (f_nodes w' 2) < 0"
    using kb kf by simp_all
  then show ?thesis
    using t [of 3 3] t [of 0 0] b f f2 kb(1) kf(1) rb rf cf nx mn by simp
qed

section \<open>Binomial heap: insert and pop on well-formed heaps\<close>

text \<open>
  The methods of the binomial heap on a well-formed heap: every loop returns when its
  fuel exceeds a bound linear in the number of nodes, and \<^verbatim>\<open>insert\<close> and \<^verbatim>\<open>pop\<close> keep
  the heap well formed. After a \<^verbatim>\<open>pop\<close> the chain of roots need not be ordered by degree
  (see above), so nothing here relies on degrees: whatever they are, the loops of
  \<^verbatim>\<open>merge_heads\<close> and \<^verbatim>\<open>add_heap_head\<close> keep every node in the heap and every tree
  heap-ordered.
\<close>

lemma raddrs_append [simp]: "raddrs (xs @ ys) = raddrs xs \<union> raddrs ys"
  by (induction xs) auto

lemma rdist_append [simp]:
  "rdist (xs @ ys) = (rdist xs \<and> rdist ys \<and> raddrs xs \<inter> raddrs ys = {})"
  by (induction xs) auto

lemma rkeys_append [simp]: "rkeys (xs @ ys) = rkeys xs + rkeys ys"
  by (induction xs) auto

lemma rheap_append [simp]: "rheap (xs @ ys) = (rheap xs \<and> rheap ys)"
  by (induction xs) auto

lemma bseg_append [simp]:
  "bseg m x (xs @ ys) z = (\<exists>y. bseg m x xs y \<and> bseg m y ys z)"
  by (induction xs arbitrary: x) auto

lemma same_on_subset: "same_on A m m' \<Longrightarrow> B \<subseteq> A \<Longrightarrow> same_on B m m'"
  by (auto simp: same_on_def)

lemma brep_frame: "brep m x t \<Longrightarrow> same_on (laddrs t) m m' \<Longrightarrow> brep m' x t"
  by (induction t arbitrary: x) (auto simp: same_on_def)

lemma bseg_frame: "bseg m x rs y \<Longrightarrow> same_on (raddrs rs) m m' \<Longrightarrow> bseg m' x rs y"
proof (induction rs arbitrary: x)
  case Nil
  then show ?case by simp
next
  case (Cons r rs)
  obtain a k c where r: "r = (a, k, c)" by (cases r)
  from Cons.prems r have s: "same_on (laddrs c) m m'" "same_on (raddrs rs) m m'"
    "bn_key (m' a) = bn_key (m a)" "bn_child (m' a) = bn_child (m a)"
    "bn_sibling (m' a) = bn_sibling (m a)"
    by (auto simp: same_on_def)
  with Cons.prems r Cons.IH [of "bn_sibling (m a)"] show ?case
    by (auto intro: brep_frame)
qed

text \<open>
  The inner loop of \<^verbatim>\<open>merge_heads\<close> walks along the chain and stops at one of its nodes.
\<close>

lemma merge_find_place_correct:
  assumes "bseg m (Some ip) L None" "length L \<le> n"
  shows "\<exists>pre k c rest ip'. merge_find_place n m ip d = Some ip'
           \<and> L = pre @ (ip', k, c) # rest"
  using assms
proof (induction n arbitrary: ip L)
  case 0
  then show ?case by (cases L) auto
next
  case (Suc n)
  from Suc.prems(1) obtain k c rest where L: "L = (ip, k, c) # rest"
    by (cases L) auto
  show ?case
  proof (cases "bn_sibling (m ip)")
    case None
    with L show ?thesis by (intro exI [of _ "[]"]) auto
  next
    case (Some s)
    show ?thesis
    proof (cases "bn_degree (m s) < d")
      case False
      with Some L show ?thesis by (intro exI [of _ "[]"]) auto
    next
      case True
      from Suc.prems L Some have "bseg m (Some s) rest None" "length rest \<le> n"
        by auto
      from Suc.IH [OF this] obtain pre k' c' rest' ip' where
        "merge_find_place n m s d = Some ip'" "rest = pre @ (ip', k', c') # rest'"
        by blast
      with Some True L show ?thesis
        by (intro exI [of _ "(ip, k, c) # pre"]) auto
    qed
  qed
qed

lemma same_on_refl [simp]: "same_on A m m"
  by (simp add: same_on_def)

lemma same_on_upd: "a \<notin> A \<Longrightarrow> same_on A m m' \<Longrightarrow> same_on A m (m'(a := v))"
  by (auto simp: same_on_def)

lemma same_on_trans: "same_on A m m1 \<Longrightarrow> same_on A m1 m2 \<Longrightarrow> same_on A m m2"
  by (auto simp: same_on_def)

lemma bseg_Some_hd: "bseg m (Some a) rs None \<Longrightarrow> \<exists>k c rest. rs = (a, k, c) # rest"
  by (cases rs) auto

text \<open>
  The outer loop of \<^verbatim>\<open>merge_heads\<close> inserts every root of the second chain somewhere
  into the first: the result is one chain with the roots of both.
\<close>

lemma merge_loop_correct:
  fixes m :: "('k::linorder) bmem"
  assumes "bseg m (Some nh) (pre @ (ip, k, c) # rest) None"
    and "bseg m ins I None"
    and "rdist (pre @ (ip, k, c) # rest @ I)"
    and "length rest + 2 * length I < n"
  shows "\<exists>m' M'. merge_loop n m ip ins = Some m' \<and> bseg m' (Some nh) M' None
           \<and> rdist M' \<and> raddrs M' = raddrs (pre @ (ip, k, c) # rest @ I)
           \<and> rkeys M' = rkeys (pre @ (ip, k, c) # rest @ I)
           \<and> (rheap (pre @ (ip, k, c) # rest @ I) \<longrightarrow> rheap M')
           \<and> length M' = length (pre @ (ip, k, c) # rest @ I)
           \<and> (\<forall>a. a \<notin> raddrs (pre @ (ip, k, c) # rest @ I) \<longrightarrow> m' a = m a)"
  using assms
proof (induction n arbitrary: m ip ins I pre k c rest)
  case 0
  then show ?case by simp
next
  case (Suc n)
  show ?case
  proof (cases I)
    case Nil
    with Suc.prems(2) have "ins = None" by simp
    with Suc.prems Nil show ?thesis
      by (intro exI [of _ m] exI [of _ "pre @ (ip, k, c) # rest"]) simp
  next
    case (Cons r I')
    obtain i ki ci where r: "r = (i, ki, ci)" by (cases r)
    from Suc.prems(2) Cons r have ins: "ins = Some i" and ki: "bn_key (m i) = ki"
      and ci: "brep m (bn_child (m i)) ci" and I': "bseg m (bn_sibling (m i)) I' None"
      by auto
    from Suc.prems(1) obtain y where pre: "bseg m (Some nh) pre y"
      and L: "bseg m y ((ip, k, c) # rest) None"
      by auto
    from L have y: "y = Some ip" by simp
    from Suc.prems(4) have "length ((ip, k, c) # rest) \<le> Suc n" by simp
    from merge_find_place_correct [OF L [unfolded y] this, of "bn_degree (m i)"]
    obtain skip k' c' rest' ip' where
      fp: "merge_find_place (Suc n) m ip (bn_degree (m i)) = Some ip'"
      and split: "(ip, k, c) # rest = skip @ (ip', k', c') # rest'"
      by blast
    define pre' where "pre' = pre @ skip"
    have M: "pre @ (ip, k, c) # rest = pre' @ (ip', k', c') # rest'"
      using split by (simp add: pre'_def)
    from Suc.prems(1) [unfolded M] obtain
      b1: "bseg m (Some nh) pre' (Some ip')" and b2: "bn_key (m ip') = k'"
      and b3: "brep m (bn_child (m ip')) c'" and b4: "bseg m (bn_sibling (m ip')) rest' None"
      by auto
    have D: "rdist (pre' @ (ip', k', c') # rest' @ (i, ki, ci) # I')"
      using Suc.prems(3) M Cons r by (metis append.assoc append_Cons)
    then have ne: "i \<noteq> ip'" by auto
    define m2 where "m2 = bn_set_sibling i (bn_sibling (m ip')) (bn_set_sibling ip' (Some i) m)"
    have m2: "m2 = m(ip' := (m ip')\<lparr>bn_sibling := Some i\<rparr>,
                      i := (m i)\<lparr>bn_sibling := bn_sibling (m ip')\<rparr>)"
      using ne by (simp add: m2_def bn_set_defs)
    have so: "ip' \<notin> A \<Longrightarrow> i \<notin> A \<Longrightarrow> same_on A m m2" for A
      by (simp add: m2 same_on_upd)
    have step: "merge_loop (Suc n) m ip ins = merge_loop n m2 ip' (bn_sibling (m i))"
      using fp ins ne by (simp add: Let_def m2_def bn_set_defs)
    have n1: "bseg m2 (Some nh) (pre' @ (ip', k', c') # ((i, ki, ci) # rest')) None"
    proof -
      have "bseg m2 (Some nh) pre' (Some ip')"
        using D by (intro bseg_frame [OF b1] so) auto
      moreover have "brep m2 (bn_child (m ip')) c'"
        using D by (intro brep_frame [OF b3] so) auto
      moreover have "brep m2 (bn_child (m i)) ci"
        using D by (intro brep_frame [OF ci] so) auto
      moreover have "bseg m2 (bn_sibling (m ip')) rest' None"
        using D by (intro bseg_frame [OF b4] so) auto
      ultimately show ?thesis
        using b2 ki ne by (auto simp: m2)
    qed
    have n2: "bseg m2 (bn_sibling (m i)) I' None"
      using D by (intro bseg_frame [OF I'] so) auto
    have n3: "rdist (pre' @ (ip', k', c') # ((i, ki, ci) # rest') @ I')"
      using D by auto
    have n4: "length ((i, ki, ci) # rest') + 2 * length I' < n"
    proof -
      have "length rest' \<le> length rest"
        using split by (metis length_Cons length_append le_add2 list.inject
            length_append_singleton Suc_le_mono add_Suc_right) 
      then show ?thesis using Suc.prems(4) Cons by simp
    qed
    from Suc.IH [OF n1 n2 n3 n4] obtain m' M' where
      r1: "merge_loop n m2 ip' (bn_sibling (m i)) = Some m'"
      and r2: "bseg m' (Some nh) M' None" "rdist M'"
      and r3: "raddrs M' = raddrs (pre' @ (ip', k', c') # ((i, ki, ci) # rest') @ I')"
      and r4: "rkeys M' = rkeys (pre' @ (ip', k', c') # ((i, ki, ci) # rest') @ I')"
      and r5: "rheap (pre' @ (ip', k', c') # ((i, ki, ci) # rest') @ I') \<longrightarrow> rheap M'"
      and r7: "length M' = length (pre' @ (ip', k', c') # ((i, ki, ci) # rest') @ I')"
      and r6: "\<forall>a. a \<notin> raddrs (pre' @ (ip', k', c') # ((i, ki, ci) # rest') @ I') \<longrightarrow> m' a = m2 a"
      by blast
    have e: "pre @ (ip, k, c) # rest @ I = pre' @ (ip', k', c') # rest' @ (i, ki, ci) # I'"
      using M Cons r by (metis append.assoc append_Cons)
    have "raddrs M' = raddrs (pre @ (ip, k, c) # rest @ I)"
      using r3 unfolding e by auto
    moreover have "rkeys M' = rkeys (pre @ (ip, k, c) # rest @ I)"
      using r4 unfolding e by (simp add: ac_simps)
    moreover have "rheap (pre @ (ip, k, c) # rest @ I) \<longrightarrow> rheap M'"
      using r5 unfolding e by auto
    moreover have "length M' = length (pre @ (ip, k, c) # rest @ I)"
      using r7 unfolding e by simp
    moreover have "\<forall>a. a \<notin> raddrs (pre @ (ip, k, c) # rest @ I) \<longrightarrow> m' a = m a"
      using r6 unfolding e by (auto simp: m2)
    ultimately show ?thesis
      using step r1 r2 by (intro exI [of _ m'] exI [of _ M']) simp
  qed
qed

lemma merge_heads_correct:
  fixes m :: "('k::linorder) bmem"
  assumes "bseg m (Some h1) R1 None" "bseg m (Some h2) R2 None"
    and "rdist (R1 @ R2)"
    and "2 * (length R1 + length R2) < n"
  shows "\<exists>nh m' M'. merge_heads n h1 h1 h2 m = Some (nh, m') \<and> bseg m' (Some nh) M' None
           \<and> rdist M' \<and> raddrs M' = raddrs (R1 @ R2) \<and> rkeys M' = rkeys (R1 @ R2)
           \<and> (rheap (R1 @ R2) \<longrightarrow> rheap M')
           \<and> length M' = length (R1 @ R2)
           \<and> (\<forall>a. a \<notin> raddrs (R1 @ R2) \<longrightarrow> m' a = m a)"
proof -
  from assms(1) obtain k1 c1 rest1 where R1: "R1 = (h1, k1, c1) # rest1"
    using bseg_Some_hd by blast
  from assms(2) obtain k2 c2 rest2 where R2: "R2 = (h2, k2, c2) # rest2"
    using bseg_Some_hd by blast
  show ?thesis
  proof (cases "bn_degree (m h1) > bn_degree (m h2)")
    case True
    have a: "bseg m (Some h2) ([] @ (h2, k2, c2) # rest2) None"
      using assms(2) R2 by simp
    have d: "rdist ([] @ (h2, k2, c2) # rest2 @ R1)"
      using assms(3) R2 by (auto simp: Int_commute)
    have f: "length rest2 + 2 * length R1 < n"
      using assms(4) R2 by simp
    from merge_loop_correct [OF a assms(1) d f] obtain m' M' where
      "merge_loop n m h2 (Some h1) = Some m'" "bseg m' (Some h2) M' None" "rdist M'"
      "raddrs M' = raddrs ([] @ (h2, k2, c2) # rest2 @ R1)"
      "rkeys M' = rkeys ([] @ (h2, k2, c2) # rest2 @ R1)"
      "rheap ([] @ (h2, k2, c2) # rest2 @ R1) \<longrightarrow> rheap M'"
      "length M' = length ([] @ (h2, k2, c2) # rest2 @ R1)"
      "\<forall>a. a \<notin> raddrs ([] @ (h2, k2, c2) # rest2 @ R1) \<longrightarrow> m' a = m a"
      by blast
    with True R2 show ?thesis
      by (intro exI [of _ h2] exI [of _ m'] exI [of _ M'])
        (auto simp: merge_heads_def Un_commute ac_simps)
  next
    case False
    have a: "bseg m (Some h1) ([] @ (h1, k1, c1) # rest1) None"
      using assms(1) R1 by simp
    have d: "rdist ([] @ (h1, k1, c1) # rest1 @ R2)"
      using assms(3) R1 by auto
    have f: "length rest1 + 2 * length R2 < n"
      using assms(4) R1 by simp
    from merge_loop_correct [OF a assms(2) d f] obtain m' M' where
      "merge_loop n m h1 (Some h2) = Some m'" "bseg m' (Some h1) M' None" "rdist M'"
      "raddrs M' = raddrs ([] @ (h1, k1, c1) # rest1 @ R2)"
      "rkeys M' = rkeys ([] @ (h1, k1, c1) # rest1 @ R2)"
      "rheap ([] @ (h1, k1, c1) # rest1 @ R2) \<longrightarrow> rheap M'"
      "length M' = length ([] @ (h1, k1, c1) # rest1 @ R2)"
      "\<forall>a. a \<notin> raddrs ([] @ (h1, k1, c1) # rest1 @ R2) \<longrightarrow> m' a = m a"
      by blast
    with False R1 show ?thesis
      by (intro exI [of _ h1] exI [of _ m'] exI [of _ M'])
        (auto simp: merge_heads_def)
  qed
qed

lemma bseg_snoc:
  "bseg m z (rs @ [(a, k, c)]) y \<longleftrightarrow>
     bseg m z rs (Some a) \<and> bn_key (m a) = k \<and> brep m (bn_child (m a)) c
     \<and> bn_sibling (m a) = y"
  by auto

lemma link_nodes_fields:
  assumes "y \<noteq> z"
  shows "bn_key (link_nodes y z m a) = bn_key (m a)"
    "bn_child (link_nodes y z m a) = (if a = z then Some y else bn_child (m a))"
    "bn_sibling (link_nodes y z m a) = (if a = y then bn_child (m z) else bn_sibling (m a))"
    "a \<noteq> y \<Longrightarrow> a \<noteq> z \<Longrightarrow> link_nodes y z m a = m a"
  using assms by (auto simp: link_nodes_def bn_set_defs Let_def)

text \<open>
  The loop of \<^verbatim>\<open>add_heap_head\<close> either moves on or links two neighbouring roots, the one
  with the greater key below the other: the result is a chain of heap-ordered trees with
  the same nodes and keys.
\<close>

lemma add_heap_head_loop_correct:
  fixes m :: "('k::linorder) bmem"
  assumes "bseg m (Some nh) pre (Some x)"
    and "prev = (if pre = [] then None else Some (fst (last pre)))"
    and "bn_key (m x) = kx" "brep m (bn_child (m x)) cx"
    and "bseg m (bn_sibling (m x)) post None"
    and "rdist (pre @ (x, kx, cx) # post)" "rheap (pre @ (x, kx, cx) # post)"
    and "length post < n"
  shows "\<exists>nh' m' R'. add_heap_head_loop n m nh prev x (bn_sibling (m x)) = Some (nh', m')
           \<and> bseg m' (Some nh') R' None \<and> rdist R' \<and> rheap R'
           \<and> raddrs R' = raddrs (pre @ (x, kx, cx) # post)
           \<and> rkeys R' = rkeys (pre @ (x, kx, cx) # post)
           \<and> (\<forall>a. a \<notin> raddrs (pre @ (x, kx, cx) # post) \<longrightarrow> m' a = m a)"
  using assms
proof (induction n arbitrary: m nh prev x pre kx cx post)
  case 0
  then show ?case by simp
next
  case (Suc n)
  note D = Suc.prems(6) and H = Suc.prems(7)
  show ?case
  proof (cases post)
    case Nil
    with Suc.prems(5) have "bn_sibling (m x) = None" by simp
    moreover have "bseg m (Some nh) (pre @ [(x, kx, cx)]) None"
      using Suc.prems(1,3,4) \<open>bn_sibling (m x) = None\<close> by (simp add: bseg_snoc)
    ultimately show ?thesis
      using Nil D H
      by (intro exI [of _ nh] exI [of _ m] exI [of _ "pre @ [(x, kx, cx)]"]) simp
  next
    case (Cons r post')
    obtain y ky cy where r: "r = (y, ky, cy)" by (cases r)
    from Suc.prems(5) Cons r have nx: "bn_sibling (m x) = Some y"
      and ky: "bn_key (m y) = ky" and cy: "brep m (bn_child (m y)) cy"
      and p': "bseg m (bn_sibling (m y)) post' None"
      by auto
    have D': "rdist (pre @ (x, kx, cx) # (y, ky, cy) # post')"
      and H': "rheap (pre @ (x, kx, cx) # (y, ky, cy) # post')"
      using D H Cons r by simp_all
    have xy: "x \<noteq> y" using D' by auto
    let ?all = "pre @ (x, kx, cx) # (y, ky, cy) # post'"
    define A where "A \<longleftrightarrow> bn_degree (m x) \<noteq> bn_degree (m y)
       \<or> (case bn_sibling (m y) of None \<Rightarrow> False
           | Some s \<Rightarrow> bn_degree (m s) = bn_degree (m x))"
    show ?thesis
    proof (cases A)
      case True
      have step: "add_heap_head_loop (Suc n) m nh prev x (bn_sibling (m x))
          = add_heap_head_loop n m nh (Some x) y (bn_sibling (m y))"
        using True nx unfolding A_def by simp
      have a1: "bseg m (Some nh) (pre @ [(x, kx, cx)]) (Some y)"
        using Suc.prems(1,3,4) nx by (simp add: bseg_snoc)
      have a2: "Some x = (if pre @ [(x, kx, cx)] = [] then None
                          else Some (fst (last (pre @ [(x, kx, cx)]))))"
        by simp
      have a6: "rdist ((pre @ [(x, kx, cx)]) @ (y, ky, cy) # post')"
        and a7: "rheap ((pre @ [(x, kx, cx)]) @ (y, ky, cy) # post')"
        using D' H' by simp_all
      have a8: "length post' < n" using Suc.prems(8) Cons by simp
      from Suc.IH [OF a1 a2 ky cy p' a6 a7 a8] step Cons r show ?thesis
        by simp
    next
      case False
      show ?thesis
      proof (cases "kx < ky")
        case True
        define m2 where "m2 = link_nodes y x (bn_set_sibling x (bn_sibling (m y)) m)"
        have step: "add_heap_head_loop (Suc n) m nh prev x (bn_sibling (m x))
            = add_heap_head_loop n m2 nh prev x (bn_sibling (m2 x))"
          using False True nx Suc.prems(3) ky unfolding A_def
          by (simp add: Let_def m2_def)
        have f: "bn_key (m2 a) = bn_key (m a)"
          "bn_child (m2 a) = (if a = x then Some y else bn_child (m a))"
          "bn_sibling (m2 a) = (if a = x then bn_sibling (m y)
                               else if a = y then bn_child (m x) else bn_sibling (m a))"
          "a \<noteq> x \<Longrightarrow> a \<noteq> y \<Longrightarrow> m2 a = m a" for a
          using xy by (auto simp: m2_def link_nodes_fields bn_set_defs)
        have so: "x \<notin> B \<Longrightarrow> y \<notin> B \<Longrightarrow> same_on B m m2" for B
          by (auto simp: same_on_def f)
        have a1: "bseg m2 (Some nh) pre (Some x)"
          using D' by (intro bseg_frame [OF Suc.prems(1)] so) auto
        have a3: "bn_key (m2 x) = kx" using Suc.prems(3) f by simp
        have "brep m2 (bn_child (m y)) cy"
          using D' by (intro brep_frame [OF cy] so) auto
        moreover have "brep m2 (bn_child (m x)) cx"
          using D' by (intro brep_frame [OF Suc.prems(4)] so) auto
        ultimately have a4: "brep m2 (bn_child (m2 x)) (LNode y ky cy cx)"
          using ky xy by (simp add: f)
        have a5: "bseg m2 (bn_sibling (m2 x)) post' None"
          using D' by (simp add: f) (intro bseg_frame [OF p'] so; auto)
        have a6: "rdist (pre @ (x, kx, LNode y ky cy cx) # post')"
          using D' by auto
        have a7: "rheap (pre @ (x, kx, LNode y ky cy cx) # post')"
          using H' True by auto
        have a8: "length post' < n" using Suc.prems(8) Cons by simp
        from Suc.IH [OF a1 Suc.prems(2) a3 a4 a5 a6 a7 a8] obtain nh' m' R' where
          r: "add_heap_head_loop n m2 nh prev x (bn_sibling (m2 x)) = Some (nh', m')"
          "bseg m' (Some nh') R' None" "rdist R'" "rheap R'"
          "raddrs R' = raddrs (pre @ (x, kx, LNode y ky cy cx) # post')"
          "rkeys R' = rkeys (pre @ (x, kx, LNode y ky cy cx) # post')"
          "\<forall>a. a \<notin> raddrs (pre @ (x, kx, LNode y ky cy cx) # post') \<longrightarrow> m' a = m2 a"
          by blast
        have "raddrs R' = raddrs ?all" using r(5) by auto
        moreover have "rkeys R' = rkeys ?all" using r(6) by (simp add: ac_simps)
        moreover have "\<forall>a. a \<notin> raddrs ?all \<longrightarrow> m' a = m a"
          using r(7) f(4) by auto
        ultimately show ?thesis
          using step r(1-4) Cons \<open>r = (y, ky, cy)\<close>
          by (intro exI [of _ nh'] exI [of _ m'] exI [of _ R']) simp
      next
        case kf: False
        define m1 where "m1 = (case prev of None \<Rightarrow> m | Some pv \<Rightarrow> bn_set_sibling pv (Some y) m)"
        define nh1 where "nh1 = (case prev of None \<Rightarrow> y | Some pv \<Rightarrow> nh)"
        define m2 where "m2 = link_nodes x y m1"
        have step: "add_heap_head_loop (Suc n) m nh prev x (bn_sibling (m x))
            = add_heap_head_loop n m2 nh1 prev y (bn_sibling (m2 y))"
          using False kf nx Suc.prems(3) ky unfolding A_def
          by (simp add: Let_def m2_def m1_def nh1_def split: option.splits)
        have pvx: "prev \<noteq> Some x" "prev \<noteq> Some y"
          using D' Suc.prems(2) by (cases pre rule: rev_cases; auto)+
        have f1: "bn_child (m1 a) = bn_child (m a)" "bn_key (m1 a) = bn_key (m a)"
          "bn_sibling (m1 a) = (if prev = Some a then Some y else bn_sibling (m a))"
          "prev \<noteq> Some a \<Longrightarrow> m1 a = m a" for a
          by (auto simp: m1_def bn_set_defs split: option.splits)
        have f: "bn_key (m2 a) = bn_key (m a)"
          "bn_child (m2 a) = (if a = y then Some x else bn_child (m a))"
          "bn_sibling (m2 a) = (if a = x then bn_child (m y)
                               else if prev = Some a then Some y else bn_sibling (m a))"
          "a \<noteq> x \<Longrightarrow> a \<noteq> y \<Longrightarrow> prev \<noteq> Some a \<Longrightarrow> m2 a = m a" for a
          using xy pvx by (auto simp: m2_def link_nodes_fields f1)
        have so: "x \<notin> B \<Longrightarrow> y \<notin> B \<Longrightarrow> (\<forall>pv. prev = Some pv \<longrightarrow> pv \<notin> B)
            \<Longrightarrow> same_on B m m2" for B
          by (auto simp: same_on_def f)
        have a1: "bseg m2 (Some nh1) pre (Some y)"
        proof (cases pre rule: rev_cases)
          case Nil
          with Suc.prems(2) show ?thesis by (simp add: nh1_def)
        next
          case (snoc pre0 q)
          obtain pv kp cp where q: "q = (pv, kp, cp)" by (cases q)
          from Suc.prems(2) snoc q have pv: "prev = Some pv" by simp
          from Suc.prems(1) snoc q have b: "bseg m (Some nh) pre0 (Some pv)"
            "bn_key (m pv) = kp" "brep m (bn_child (m pv)) cp"
            by (auto simp: bseg_snoc)
          have D0: "rdist (pre0 @ (pv, kp, cp) # (x, kx, cx) # (y, ky, cy) # post')"
            using D' snoc q by simp
          have "bseg m2 (Some nh) pre0 (Some pv)"
            using D0 pv by (intro bseg_frame [OF b(1)] so) auto
          moreover have "brep m2 (bn_child (m pv)) cp"
            using D0 pv by (intro brep_frame [OF b(3)] so) auto
          moreover have "pv \<noteq> x" "pv \<noteq> y" using D0 by auto
          ultimately show ?thesis
            using b(2) pv snoc q by (simp add: bseg_snoc f nh1_def)
        qed
        have a3: "bn_key (m2 y) = ky" using ky f by simp
        have "brep m2 (bn_child (m y)) cy"
          using D' Suc.prems(2)
          by (intro brep_frame [OF cy] so) (cases pre rule: rev_cases; auto)+
        moreover have "brep m2 (bn_child (m x)) cx"
          using D' Suc.prems(2)
          by (intro brep_frame [OF Suc.prems(4)] so) (cases pre rule: rev_cases; auto)+
        ultimately have a4: "brep m2 (bn_child (m2 y)) (LNode x kx cx cy)"
          using Suc.prems(3) xy pvx by (simp add: f)
        have "bseg m2 (bn_sibling (m y)) post' None"
          using D' Suc.prems(2)
          by (intro bseg_frame [OF p'] so) (cases pre rule: rev_cases; auto)+
        then have a5: "bseg m2 (bn_sibling (m2 y)) post' None"
          using xy pvx by (simp add: f)
        have a6: "rdist (pre @ (y, ky, LNode x kx cx cy) # post')"
          using D' by auto
        have a7: "rheap (pre @ (y, ky, LNode x kx cx cy) # post')"
          using H' kf by auto
        have a8: "length post' < n" using Suc.prems(8) Cons by simp
        from Suc.IH [OF a1 Suc.prems(2) a3 a4 a5 a6 a7 a8] obtain nh' m' R' where
          r: "add_heap_head_loop n m2 nh1 prev y (bn_sibling (m2 y)) = Some (nh', m')"
          "bseg m' (Some nh') R' None" "rdist R'" "rheap R'"
          "raddrs R' = raddrs (pre @ (y, ky, LNode x kx cx cy) # post')"
          "rkeys R' = rkeys (pre @ (y, ky, LNode x kx cx cy) # post')"
          "\<forall>a. a \<notin> raddrs (pre @ (y, ky, LNode x kx cx cy) # post') \<longrightarrow> m' a = m2 a"
          by blast
        have "raddrs R' = raddrs ?all" using r(5) by auto
        moreover have "rkeys R' = rkeys ?all" using r(6) by (simp add: ac_simps)
        moreover have "\<forall>a. a \<notin> raddrs ?all \<longrightarrow> m' a = m a"
        proof (intro allI impI)
          fix a assume a: "a \<notin> raddrs ?all"
          then have "prev \<noteq> Some a"
            using Suc.prems(2) by (cases pre rule: rev_cases) auto
          with a r(7) f(4) [of a] show "m' a = m a" by auto
        qed
        ultimately show ?thesis
          using step r(1-4) Cons \<open>r = (y, ky, cy)\<close>
          by (intro exI [of _ nh'] exI [of _ m'] exI [of _ R']) simp
      qed
    qed
  qed
qed

lemma add_heap_head_correct:
  fixes m :: "('k::linorder) bmem"
  assumes "bseg m (b_head h) R1 None" "bseg m h2head R2 None"
    and "rdist (R1 @ R2)" "rheap (R1 @ R2)"
    and "2 * (length R1 + length R2) < n"
  shows "\<exists>h' m' R'. add_heap_head n h2head h m = Some (h', m')
           \<and> bseg m' (b_head h') R' None \<and> rdist R' \<and> rheap R'
           \<and> raddrs R' = raddrs (R1 @ R2) \<and> rkeys R' = rkeys (R1 @ R2)
           \<and> (\<forall>a. a \<notin> raddrs (R1 @ R2) \<longrightarrow> m' a = m a)
           \<and> b_size h' = b_size h"
proof (cases R2)
  case Nil
  with assms show ?thesis
    by (intro exI [of _ h] exI [of _ m] exI [of _ R1]) (simp add: add_heap_head_def)
next
  case R2: (Cons r2 rest2)
  with assms(2) obtain h2 where h2: "h2head = Some h2"
    by (cases r2) auto
  show ?thesis
  proof (cases R1)
    case Nil
    with assms h2 show ?thesis
      by (intro exI [of _ "h\<lparr>b_head := Some h2\<rparr>"] exI [of _ m] exI [of _ R2])
        (simp add: add_heap_head_def)
  next
    case R1: (Cons r1 rest1)
    with assms(1) obtain h1 where h1: "b_head h = Some h1"
      by (cases r1) auto
    from merge_heads_correct [OF assms(1) [unfolded h1] assms(2) [unfolded h2] assms(3,5)]
    obtain nh m1 M where mh: "merge_heads n h1 h1 h2 m = Some (nh, m1)"
      and M: "bseg m1 (Some nh) M None" "rdist M" "raddrs M = raddrs (R1 @ R2)"
      "rkeys M = rkeys (R1 @ R2)" "rheap M" "length M = length (R1 @ R2)"
      "\<forall>a. a \<notin> raddrs (R1 @ R2) \<longrightarrow> m1 a = m a"
      using assms(4) by blast
    from M(1) obtain k c post where Ms: "M = (nh, k, c) # post"
      using bseg_Some_hd by blast
    have a1: "bseg m1 (Some nh) [] (Some nh)" by simp
    have a2: "None = (if ([]::'k broot list) = [] then None else Some (fst (last [])))"
      by simp
    from M(1) Ms have a3: "bn_key (m1 nh) = k" and a4: "brep m1 (bn_child (m1 nh)) c"
      and a5: "bseg m1 (bn_sibling (m1 nh)) post None"
      by auto
    have a6: "rdist ([] @ (nh, k, c) # post)" and a7: "rheap ([] @ (nh, k, c) # post)"
      using M(2,5) Ms by simp_all
    have a8: "length post < n" using M(6) Ms assms(5) by simp
    from add_heap_head_loop_correct [OF a1 a2 a3 a4 a5 a6 a7 a8]
    obtain nh' m' R' where
      l: "add_heap_head_loop n m1 nh None nh (bn_sibling (m1 nh)) = Some (nh', m')"
      "bseg m' (Some nh') R' None" "rdist R'" "rheap R'"
      "raddrs R' = raddrs ([] @ (nh, k, c) # post)"
      "rkeys R' = rkeys ([] @ (nh, k, c) # post)"
      "\<forall>a. a \<notin> raddrs ([] @ (nh, k, c) # post) \<longrightarrow> m' a = m1 a"
      by blast
    have "raddrs R' = raddrs (R1 @ R2)" using l(5) M(3) Ms by simp
    moreover have "rkeys R' = rkeys (R1 @ R2)" using l(6) M(4) Ms by simp
    moreover have "\<forall>a. a \<notin> raddrs (R1 @ R2) \<longrightarrow> m' a = m a"
    proof (intro allI impI)
      fix a assume a: "a \<notin> raddrs (R1 @ R2)"
      then have "a \<notin> raddrs M" using M(3) by simp
      then have "m' a = m1 a" using l(7) Ms by simp
      with M(7) a show "m' a = m a" by simp
    qed
    ultimately show ?thesis
      using h1 h2 mh l(1-4)
      by (intro exI [of _ "h\<lparr>b_head := Some nh'\<rparr>"] exI [of _ m'] exI [of _ R'])
        (simp add: add_heap_head_def)
  qed
qed

lemma brep_spine: "brep m x t \<longleftrightarrow> bseg m x (spine t) None"
  by (induction t arbitrary: x) auto

lemma spine_props [simp]:
  "raddrs (spine t) = laddrs t" "rdist (spine t) = ldist t"
  "rkeys (spine t) = lkeys t"
  by (induction t) auto

lemma rheap_spine [simp]: "rheap (spine t) = lheap t"
  by (induction t) auto

lemma length_spine: "length (spine t) \<le> lsize t"
  by (induction t) auto

lemma pop_clear_loop_correct:
  assumes "bseg m x S None" "length S < n"
  shows "\<exists>m'. pop_clear_loop n m x = Some m'
           \<and> (\<forall>a. bn_key (m' a) = bn_key (m a) \<and> bn_child (m' a) = bn_child (m a)
                 \<and> bn_sibling (m' a) = bn_sibling (m a))"
  using assms
proof (induction n arbitrary: m x S)
  case 0
  then show ?case by simp
next
  case (Suc n)
  show ?case
  proof (cases S)
    case Nil
    with Suc.prems show ?thesis by simp
  next
    case (Cons r S')
    obtain a k c where r: "r = (a, k, c)" by (cases r)
    define m1 where "m1 = bn_set_p a None m"
    have f: "bn_key (m1 b) = bn_key (m b)" "bn_child (m1 b) = bn_child (m b)"
      "bn_sibling (m1 b) = bn_sibling (m b)" for b
      by (simp_all add: m1_def bn_set_defs)
    from Suc.prems Cons r have x: "x = Some a" and s: "bseg m (bn_sibling (m a)) S' None"
      by auto
    have "bseg m1 (bn_sibling (m1 a)) S' None"
      using s by (simp add: f) (rule bseg_frame, assumption, simp add: same_on_def f)
    moreover have "length S' < n" using Suc.prems(2) Cons by simp
    ultimately obtain m' where "pop_clear_loop n m1 (bn_sibling (m1 a)) = Some m'"
      "\<forall>b. bn_key (m' b) = bn_key (m1 b) \<and> bn_child (m' b) = bn_child (m1 b)
           \<and> bn_sibling (m' b) = bn_sibling (m1 b)"
      using Suc.IH by blast
    with x show ?thesis
      by (intro exI [of _ m']) (simp add: Let_def m1_def [symmetric] f)
  qed
qed

lemma raddrs_root: "(a, k, c) \<in> set R \<Longrightarrow> a \<in> raddrs R"
  by (induction R) auto

lemma size_lkeys: "size (lkeys t) = lsize t"
  by (induction t) auto

lemma length_le_size_rkeys: "length R \<le> size (rkeys R)"
  by (induction R) auto

lemma length_spine_le_size: "length (spine t) \<le> size (lkeys t)"
  by (induction t) auto

lemma rheap_lower_bound:
  fixes R :: "('k::linorder) broot list"
  assumes "rheap R" "\<forall>r\<in>set R. k \<le> fst (snd r)"
  shows "\<forall>x\<in>#rkeys R. k \<le> x"
  using assms
proof (induction R)
  case Nil
  then show ?case by simp
next
  case (Cons r R)
  obtain a kr cr where r: "r = (a, kr, cr)" by (cases r)
  from Cons.prems r have "k \<le> kr" "\<forall>x\<in>#lkeys cr. kr \<le> x" by auto
  then have "\<forall>x\<in>#lkeys cr. k \<le> x" by (meson order_trans)
  with Cons r \<open>k \<le> kr\<close> show ?case by auto
qed

text \<open>
  The first loop of \<^verbatim>\<open>pop\<close> finds a root with a least key, and the root before it.
\<close>

lemma pop_find_loop_correct:
  fixes m :: "('k::linorder) bmem"
  assumes "bseg m x Q None" "length Q < n"
    and "P = pre @ (mn, k, c) # pp" "\<forall>r\<in>set P. k \<le> fst (snd r)"
    and "bn_key (m mn) = k" "prev_x = fst (last P)"
    and "pre \<noteq> [] \<longrightarrow> prev_min = fst (last pre)"
  shows "\<exists>mn' pm' pre' k' c' post'.
           pop_find_loop n m x prev_x mn prev_min = Some (mn', pm')
           \<and> P @ Q = pre' @ (mn', k', c') # post'
           \<and> (\<forall>r\<in>set (P @ Q). k' \<le> fst (snd r))
           \<and> (pre' \<noteq> [] \<longrightarrow> pm' = fst (last pre'))"
  using assms
proof (induction n arbitrary: x Q P pre mn k c pp prev_x prev_min)
  case 0
  then show ?case by simp
next
  case (Suc n)
  show ?case
  proof (cases Q)
    case Nil
    with Suc.prems show ?thesis
      by (intro exI [of _ mn] exI [of _ prev_min] exI [of _ pre] exI [of _ k]
          exI [of _ c] exI [of _ pp]) simp
  next
    case (Cons r Q')
    obtain xa kx cx where r: "r = (xa, kx, cx)" by (cases r)
    from Suc.prems(1) Cons r have x: "x = Some xa" and kx: "bn_key (m xa) = kx"
      and q: "bseg m (bn_sibling (m xa)) Q' None"
      by auto
    have l: "length Q' < n" using Suc.prems(2) Cons by simp
    show ?thesis
    proof (cases "kx < k")
      case True
      have step: "pop_find_loop (Suc n) m x prev_x mn prev_min
          = pop_find_loop n m (bn_sibling (m xa)) xa xa prev_x"
        using True x kx Suc.prems(5) by simp
      have a3: "P @ [(xa, kx, cx)] = P @ (xa, kx, cx) # []" by simp
      have a4: "\<forall>r\<in>set (P @ [(xa, kx, cx)]). kx \<le> fst (snd r)"
        using Suc.prems(4) True by auto
      have a6: "xa = fst (last (P @ [(xa, kx, cx)]))" by simp
      have a7: "P \<noteq> [] \<longrightarrow> prev_x = fst (last P)" using Suc.prems(6) by simp
      from Suc.IH [OF q l a3 a4 kx a6 a7] step Cons r show ?thesis
        by simp
    next
      case False
      have step: "pop_find_loop (Suc n) m x prev_x mn prev_min
          = pop_find_loop n m (bn_sibling (m xa)) xa mn prev_min"
        using False x kx Suc.prems(5) by simp
      have a3: "P @ [(xa, kx, cx)] = pre @ (mn, k, c) # (pp @ [(xa, kx, cx)])"
        using Suc.prems(3) by simp
      have a4: "\<forall>r\<in>set (P @ [(xa, kx, cx)]). k \<le> fst (snd r)"
        using Suc.prems(4) False by auto
      have a6: "xa = fst (last (P @ [(xa, kx, cx)]))" by simp
      from Suc.IH [OF q l a3 a4 Suc.prems(5) a6 Suc.prems(7)] step Cons r show ?thesis
        by simp
    qed
  qed
qed

text \<open>
  \<^verbatim>\<open>pop()\<close> on a well-formed, non-empty heap returns a least key and leaves a well-formed
  heap with the other keys.
\<close>

lemma bh_pop_correct:
  fixes w :: "('k::linorder) bworld"
  assumes "binv h w R" "R \<noteq> []" "2 * size (rkeys R) < n"
  shows "\<exists>k h' w' R'. bh_pop n h w = Some (Inr k, h', w') \<and> binv h' w' R'
           \<and> rkeys R = {#k#} + rkeys R' \<and> (\<forall>x\<in>#rkeys R. k \<le> x)"
proof -
  define m where "m = b_nodes w"
  from assms(1) have R: "bseg m (b_head h) R None" "rdist R" "rheap R"
    and fresh: "\<forall>a\<in>raddrs R. a < b_next w" and sz: "unat (b_size h) = size (rkeys R)"
    by (simp_all add: binv_def m_def)
  from assms(2) obtain hp k0 c0 rest where R0: "R = (hp, k0, c0) # rest"
    by (cases R) auto
  from R(1) R0 have hd: "b_head h = Some hp" and k0: "bn_key (m hp) = k0"
    and rest: "bseg m (bn_sibling (m hp)) rest None"
    by auto
  have nz: "\<not> b_size h < 1"
    using sz R0 by (auto simp: unat_eq_zero [symmetric] simp del: unat_eq_zero)
  have lR: "length R \<le> size (rkeys R)" by (rule length_le_size_rkeys)
  have a2: "length rest < n" using lR R0 assms(3) by simp
  have a3: "[(hp, k0, c0)] = [] @ (hp, k0, c0) # []" by simp
  have a4: "\<forall>r\<in>set [(hp, k0, c0)]. k0 \<le> fst (snd r)" by simp
  have a6: "hp = fst (last [(hp, k0, c0)])" by simp
  have a7: "([]::'k broot list) \<noteq> [] \<longrightarrow> hp = fst (last [])" by simp
  from pop_find_loop_correct [OF rest a2 a3 a4 k0 a6 a7]
  obtain mn pm pre k c post where
    fl: "pop_find_loop n m (bn_sibling (m hp)) hp hp hp = Some (mn, pm)"
    and split': "[(hp, k0, c0)] @ rest = pre @ (mn, k, c) # post"
    and least': "\<forall>r\<in>set ([(hp, k0, c0)] @ rest). k \<le> fst (snd r)"
    and pm: "pre \<noteq> [] \<longrightarrow> pm = fst (last pre)"
    by blast
  have split: "R = pre @ (mn, k, c) # post" using split' R0 by simp
  have least: "\<forall>r\<in>set R. k \<le> fst (snd r)" using least' R0 by simp
  from R(1) split have b1: "bseg m (b_head h) pre (Some mn)" and kmn: "bn_key (m mn) = k"
    and cmn: "brep m (bn_child (m mn)) c" and b4: "bseg m (bn_sibling (m mn)) post None"
    by auto
  have D: "rdist (pre @ (mn, k, c) # post)" using R(2) split by simp
  define h1 where "h1 = (if hp = mn then h\<lparr>b_head := bn_sibling (m mn)\<rparr> else h)"
  define m1 where "m1 = (if hp = mn then m else bn_set_sibling pm (bn_sibling (m mn)) m)"
  have hpmn: "hp = mn \<longleftrightarrow> pre = []"
  proof
    assume "hp = mn"
    show "pre = []"
    proof (rule ccontr)
      assume "pre \<noteq> []"
      then obtain q pre' where "pre = q # pre'" by (cases pre) auto
      with split R0 \<open>hp = mn\<close> D show False by auto
    qed
  next
    assume "pre = []"
    with split R0 show "hp = mn" by simp
  qed
  have f1: "bn_key (m1 a) = bn_key (m a)" "bn_child (m1 a) = bn_child (m a)" for a
    by (simp_all add: m1_def bn_set_defs)
  have u: "bseg m1 (b_head h1) (pre @ post) None"
    and so1: "\<And>B. (\<forall>q\<in>set pre. fst q \<notin> B) \<Longrightarrow> same_on B m m1"
  proof -
    show so1: "(\<forall>q\<in>set pre. fst q \<notin> B) \<Longrightarrow> same_on B m m1" for B
    proof (cases "pre = []")
      case True
      then show ?thesis using hpmn by (simp add: m1_def)
    next
      case False
      assume "\<forall>q\<in>set pre. fst q \<notin> B"
      with False pm have "pm \<notin> B" by auto
      then show ?thesis
        by (auto simp: m1_def bn_set_defs same_on_def)
    qed
    show "bseg m1 (b_head h1) (pre @ post) None"
    proof (cases pre rule: rev_cases)
      case Nil
      with hpmn b4 show ?thesis by (simp add: h1_def m1_def)
    next
      case (snoc pre0 q)
      obtain pv kp cp where q: "q = (pv, kp, cp)" by (cases q)
      from pm snoc q have pmv: "pm = pv" by simp
      from hpmn snoc have ne: "hp \<noteq> mn" by simp
      from b1 snoc q have b: "bseg m (b_head h) pre0 (Some pv)"
        "bn_key (m pv) = kp" "brep m (bn_child (m pv)) cp"
        by (auto simp: bseg_snoc)
      have D0: "rdist (pre0 @ (pv, kp, cp) # (mn, k, c) # post)"
        using D snoc q by simp
      have s: "pv \<notin> B \<Longrightarrow> same_on B m m1" for B
        using ne pmv by (auto simp: m1_def bn_set_defs same_on_def)
      have "bseg m1 (b_head h) pre0 (Some pv)"
        using D0 by (intro bseg_frame [OF b(1)] s) auto
      moreover have "brep m1 (bn_child (m pv)) cp"
        using D0 by (intro brep_frame [OF b(3)] s) auto
      moreover have "bseg m1 (bn_sibling (m mn)) post None"
        using D0 by (intro bseg_frame [OF b4] s) auto
      moreover have "bn_sibling (m1 pv) = bn_sibling (m mn)"
        using ne pmv by (simp add: m1_def bn_set_defs)
      ultimately show ?thesis
        using b(2) ne snoc q by (auto simp: bseg_snoc h1_def f1)
    qed
  qed
  have c1: "brep m1 (bn_child (m1 mn)) c"
    using D by (simp add: f1) (intro brep_frame [OF cmn] so1; auto dest: raddrs_root)
  then have s1: "bseg m1 (bn_child (m1 mn)) (spine c) None"
    by (simp add: brep_spine)
  have szc: "length (pre @ post) + length (spine c) < size (rkeys R)"
    using length_le_size_rkeys [of pre] length_le_size_rkeys [of post]
      length_spine_le_size [of c] split by simp
  then have "length (spine c) < n" using assms(3) by simp
  from pop_clear_loop_correct [OF s1 this] obtain m2 where
    cl: "pop_clear_loop n m1 (bn_child (m1 mn)) = Some m2"
    and f2: "\<forall>a. bn_key (m2 a) = bn_key (m1 a) \<and> bn_child (m2 a) = bn_child (m1 a)
               \<and> bn_sibling (m2 a) = bn_sibling (m1 a)"
    by blast
  have so2: "same_on B m1 m2" for B
    using f2 by (simp add: same_on_def)
  have u2: "bseg m2 (b_head h1) (pre @ post) None"
    by (rule bseg_frame [OF u so2])
  have s2: "bseg m2 (bn_child (m1 mn)) (spine c) None"
    by (rule bseg_frame [OF s1 so2])
  have d2: "rdist ((pre @ post) @ spine c)" using D by auto
  have hp2: "rheap ((pre @ post) @ spine c)" using R(3) split by auto
  have fu: "2 * (length (pre @ post) + length (spine c)) < n"
    using szc assms(3) by simp
  from add_heap_head_correct [OF u2 s2 d2 hp2 fu] obtain h2 m3 R' where
    ah: "add_heap_head n (bn_child (m1 mn)) h1 m2 = Some (h2, m3)"
    and r: "bseg m3 (b_head h2) R' None" "rdist R'" "rheap R'"
    "raddrs R' = raddrs ((pre @ post) @ spine c)"
    "rkeys R' = rkeys ((pre @ post) @ spine c)"
    "\<forall>a. a \<notin> raddrs ((pre @ post) @ spine c) \<longrightarrow> m3 a = m2 a"
    "b_size h2 = b_size h1"
    by blast
  have mnout: "mn \<notin> raddrs ((pre @ post) @ spine c)" using D by auto
  have key: "bn_key (m3 mn) = k"
    using r(6) mnout f2 f1 kmn by simp
  have pop: "bh_pop n h w
      = Some (Inr (bn_key (m3 mn)), h2\<lparr>b_size := b_size h2 - 1\<rparr>, w\<lparr>b_nodes := m3\<rparr>)"
    using nz hd fl cl ah
    by (cases "hp = mn") (simp_all add: bh_pop_def m_def [symmetric] Let_def h1_def m1_def)
  have sz1: "b_size h1 = b_size h" by (simp add: h1_def)
  have keys: "rkeys R = {#k#} + rkeys R'" using r(5) split by simp
  have "unat (b_size h2 - 1) = size (rkeys R')"
  proof -
    have "b_size h \<noteq> 0" using nz by simp
    then have "unat (b_size h - 1) = unat (b_size h) - 1" by (rule unat_minus_one)
    then show ?thesis using sz keys r(7) sz1 by simp
  qed
  moreover have "\<forall>a\<in>raddrs R'. a < b_next w"
    using r(4) fresh split by auto
  ultimately have "binv (h2\<lparr>b_size := b_size h2 - 1\<rparr>) (w\<lparr>b_nodes := m3\<rparr>) R'"
    using r(1-3) by (simp add: binv_def)
  moreover have "\<forall>x\<in>#rkeys R. k \<le> x"
    by (rule rheap_lower_bound [OF R(3) least])
  ultimately show ?thesis
    using pop key keys by blast
qed

lemma rkeys_empty: "rkeys R = {#} \<longleftrightarrow> R = []"
  by (cases R) auto

text \<open>
  \<^verbatim>\<open>insert(d)\<close> on a well-formed heap leaves a well-formed heap with one more key.
\<close>

lemma bh_insert_correct:
  fixes w :: "('k::linorder) bworld"
  assumes "binv h w R" "size (rkeys R) + 1 < 2 ^ 64" "2 * (size (rkeys R) + 1) < n"
  shows "\<exists>x h' w' R'. bh_insert n d h w = Some (x, h', w') \<and> binv h' w' R'
           \<and> rkeys R' = {#d#} + rkeys R"
proof -
  define x where "x = b_next w"
  define m where "m = (b_nodes w)(x := \<lparr>bn_p = None, bn_child = None, bn_sibling = None,
                                        bn_degree = 0, bn_key = d\<rparr>)"
  from assms(1) have R: "bseg (b_nodes w) (b_head h) R None" "rdist R" "rheap R"
    and fresh: "\<forall>a\<in>raddrs R. a < b_next w" and sz: "unat (b_size h) = size (rkeys R)"
    by (simp_all add: binv_def)
  have xR: "x \<notin> raddrs R" using fresh by (auto simp: x_def)
  have a1: "bseg m (b_head h) R None"
    using xR by (intro bseg_frame [OF R(1)]) (auto simp: same_on_def m_def)
  have a2: "bseg m (Some x) [(x, d, LLeaf)] None"
    by (simp add: m_def)
  have a3: "rdist (R @ [(x, d, LLeaf)])" using R(2) xR by simp
  have a4: "rheap (R @ [(x, d, LLeaf)])" using R(3) by simp
  have a5: "2 * (length R + length [(x, d, LLeaf)]) < n"
    using assms(3) length_le_size_rkeys [of R] by simp
  from add_heap_head_correct [OF a1 a2 a3 a4 a5] obtain h' m' R' where
    ah: "add_heap_head n (Some x) h m = Some (h', m')"
    and r: "bseg m' (b_head h') R' None" "rdist R'" "rheap R'"
    "raddrs R' = raddrs (R @ [(x, d, LLeaf)])" "rkeys R' = rkeys (R @ [(x, d, LLeaf)])"
    "b_size h' = b_size h"
    by blast
  have ins: "bh_insert n d h w
      = Some (x, h'\<lparr>b_size := b_size h' + 1\<rparr>, \<lparr>b_nodes = m', b_next = Suc x\<rparr>)"
    using ah by (simp add: bh_insert_def x_def [symmetric] m_def [symmetric] Let_def)
  have "unat (b_size h) + unat (1::64 word) < 2 ^ LENGTH(64)"
    using sz assms(2) by simp
  then have "unat (b_size h + 1) = unat (b_size h) + unat (1::64 word)"
    by (simp only: unat_add_lem)
  then have "unat (b_size h' + 1) = size (rkeys R')"
    using sz r(5,6) by simp
  moreover have "\<forall>a\<in>raddrs R'. a < Suc x"
    using r(4) fresh by (auto simp: x_def)
  ultimately have "binv (h'\<lparr>b_size := b_size h' + 1\<rparr>) \<lparr>b_nodes = m', b_next = Suc x\<rparr> R'"
    using r(1-3) by (simp add: binv_def)
  then show ?thesis using ins r(5) by auto
qed

lemma bh_insert_list_correct:
  fixes w :: "('k::linorder) bworld"
  assumes "binv h w R" "size (rkeys R) + length ks < 2 ^ 64"
    and "2 * (size (rkeys R) + length ks) < n"
  shows "\<exists>xs h' w' R'. bh_insert_list n ks h w = Some (xs, h', w') \<and> binv h' w' R'
           \<and> rkeys R' = mset ks + rkeys R"
  using assms
proof (induction ks arbitrary: h w R)
  case Nil
  then show ?case by auto
next
  case (Cons k ks)
  from Cons.prems have "size (rkeys R) + 1 < 2 ^ 64" "2 * (size (rkeys R) + 1) < n"
    by simp_all
  from bh_insert_correct [OF Cons.prems(1) this] obtain x h1 w1 R1 where
    i: "bh_insert n k h w = Some (x, h1, w1)" "binv h1 w1 R1" "rkeys R1 = {#k#} + rkeys R"
    by blast
  have "size (rkeys R1) + length ks < 2 ^ 64" "2 * (size (rkeys R1) + length ks) < n"
    using Cons.prems(2,3) i(3) by simp_all
  from Cons.IH [OF i(2) this] obtain xs h' w' R' where
    "bh_insert_list n ks h1 w1 = Some (xs, h', w')" "binv h' w' R'"
    "rkeys R' = mset ks + rkeys R1"
    by blast
  with i show ?case by (auto simp: ac_simps)
qed

lemma bh_pop_all_correct:
  fixes w :: "('k::linorder) bworld"
  assumes "binv h w R" "size (rkeys R) < c" "2 * size (rkeys R) < n"
  shows "\<exists>ys h' w'. bh_pop_all n c h w = Some (map Inr ys, h', w') \<and> sorted ys
           \<and> mset ys = rkeys R \<and> bh_size h' = 0"
  using assms
proof (induction c arbitrary: h w R)
  case 0
  then show ?case by simp
next
  case (Suc c)
  from Suc.prems(1) have sz: "unat (b_size h) = size (rkeys R)"
    by (simp add: binv_def)
  show ?case
  proof (cases "R = []")
    case True
    with sz have "b_size h = 0" by (simp add: unat_eq_zero)
    with True show ?thesis
      by (intro exI [of _ "[]"]) (simp add: bh_size_def)
  next
    case False
    then have "size (rkeys R) \<noteq> 0" by (simp add: rkeys_empty)
    with sz have nz: "b_size h \<noteq> 0" by auto
    from bh_pop_correct [OF Suc.prems(1) False Suc.prems(3)] obtain k h1 w1 R1 where
      p: "bh_pop n h w = Some (Inr k, h1, w1)" "binv h1 w1 R1"
      "rkeys R = {#k#} + rkeys R1" "\<forall>x\<in>#rkeys R. k \<le> x"
      by blast
    have "size (rkeys R1) < c" "2 * size (rkeys R1) < n"
      using Suc.prems(2,3) p(3) by simp_all
    from Suc.IH [OF p(2) this] obtain ys h' w' where
      r: "bh_pop_all n c h1 w1 = Some (map Inr ys, h', w')" "sorted ys"
      "mset ys = rkeys R1" "bh_size h' = 0"
      by blast
    have "\<forall>y\<in>set ys. k \<le> y"
      using p(3,4) r(3) by (metis set_mset_mset union_iff)
    with r p nz show ?thesis
      by (intro exI [of _ "k # ys"]) (simp add: bh_size_def)
  qed
qed

lemma bh_pops_sorted:
  fixes ks :: "('k::linorder) list"
  assumes "length ks < 2 ^ 64" "2 * length ks < n" "length ks < c"
  shows "\<exists>xs h w h' w'. bh_insert_list n ks bheap_new w0 = Some (xs, h, w)
           \<and> bh_pop_all n c h w = Some (map Inr (sort ks), h', w') \<and> bh_size h' = 0"
proof -
  have "binv bheap_new w0 []"
    by (simp add: binv_def bheap_new_def)
  from bh_insert_list_correct [OF this, of ks n] assms obtain xs h w R where
    i: "bh_insert_list n ks bheap_new w0 = Some (xs, h, w)" "binv h w R"
    "rkeys R = mset ks"
    by auto
  have "size (rkeys R) < c" "2 * size (rkeys R) < n"
    using assms i(3) by simp_all
  from bh_pop_all_correct [OF i(2) this] obtain ys h' w' where
    p: "bh_pop_all n c h w = Some (map Inr ys, h', w')" "sorted ys" "mset ys = rkeys R"
    "bh_size h' = 0"
    by blast
  have "ys = sort ks"
    using p(2,3) i(3) by (metis properties_for_sort)
  with i(1) p show ?thesis by blast
qed

section \<open>Fibonacci heap: insert, pop and cut on well-formed heaps\<close>

text \<open>
  The methods of the Fibonacci heap on a well-formed heap. The loop of \<^verbatim>\<open>pop\<close> over the
  children of the minimum unlinks a child with \<^verbatim>\<open>x->left->right = x->left\<close> and
  \<^verbatim>\<open>x->right->left = x->right\<close>, which cuts the ring of children open instead of closing
  it around the gap. The lemmas follow these assignments round by round: every child ends
  in the ring of roots all the same.
\<close>

lemma mods_refl [simp]: "mods S L m m"
  by (simp add: mods_def)

lemma mods_trans: "mods S L m m1 \<Longrightarrow> mods S' L' m1 m2 \<Longrightarrow> mods (S \<union> S') (L \<union> L') m m2"
  by (simp add: mods_def)

lemma mods_mono: "mods S L m m' \<Longrightarrow> S \<subseteq> S' \<Longrightarrow> L \<subseteq> L' \<Longrightarrow> mods S' L' m m'"
  by (auto simp: mods_def)

lemma path_frame:
  assumes "successively (linked m) xs"
    and "\<forall>a\<in>set (butlast xs). fn_right (m' a) = fn_right (m a)"
    and "\<forall>a\<in>set (tl xs). fn_left (m' a) = fn_left (m a)"
  shows "successively (linked m') xs"
  using assms
  by (induction "linked m" xs rule: successively.induct) (auto simp: linked_def)

lemma ring_frame:
  assumes "ring m xs"
    and "\<forall>a\<in>set xs. fn_left (m' a) = fn_left (m a) \<and> fn_right (m' a) = fn_right (m a)"
  shows "ring m' xs"
proof -
  from assms(1) have ne: "xs \<noteq> []" and d: "distinct xs" and p: "successively (linked m) xs"
    and c: "linked m (last xs) (hd xs)"
    by (simp_all add: ring_def)
  have "successively (linked m') xs"
    using assms(2) ne by (intro path_frame [OF p]) (auto dest: in_set_butlastD list.set_sel(2))
  moreover have "linked m' (last xs) (hd xs)"
    using c assms(2) ne by (simp add: linked_def)
  ultimately show ?thesis using ne d by (simp add: ring_def)
qed

lemma ring_mods: "ring m xs \<Longrightarrow> mods S L m m' \<Longrightarrow> L \<inter> set xs = {} \<Longrightarrow> ring m' xs"
  by (erule ring_frame) (auto simp: mods_def)

lemma ring_rotate: "ring m (xs @ ys) \<Longrightarrow> ring m (ys @ xs)"
  by (cases "xs = []"; cases "ys = []")
     (auto simp: ring_def successively_append_iff)

lemma ring_single: "ring m [x] \<longleftrightarrow> fn_right (m x) = Some x \<and> fn_left (m x) = Some x"
  by (auto simp: ring_def linked_def)

lemma ring_left_hd: "ring m (h # t) \<Longrightarrow> fn_left (m h) = Some (last (h # t))"
  by (simp add: ring_def linked_def)

lemma ring_right_last: "ring m (h # t) \<Longrightarrow> fn_right (m (last (h # t))) = Some h"
  by (simp add: ring_def linked_def)

lemma ring_right_hd: "ring m (h # t) \<Longrightarrow> fn_right (m h) = Some (hd (t @ [h]))"
  by (cases t) (auto simp: ring_def linked_def)

lemma last_notin_butlast: "distinct xs \<Longrightarrow> xs \<noteq> [] \<Longrightarrow> last xs \<notin> set (butlast xs)"
  by (induction xs) auto

lemma ring_snoc:
  assumes "ring m (h # t)" "x \<notin> set (h # t)" "l = last (h # t)"
  shows "ring (fn_set_right x (Some h) (fn_set_left h (Some x)
            (fn_set_left x (Some l) (fn_set_right l (Some x) m)))) (h # t @ [x])"
proof -
  define m' where "m' = fn_set_right x (Some h) (fn_set_left h (Some x)
            (fn_set_left x (Some l) (fn_set_right l (Some x) m)))"
  from assms(1) have d: "distinct (h # t)" and p: "successively (linked m) (h # t)"
    by (simp_all add: ring_def)
  have lin: "l \<in> set (h # t)" using assms(3) last_in_set [of "h # t"] by simp
  have "a \<noteq> l" if "a \<in> set (butlast (h # t))" for a
    using that d assms(3) last_notin_butlast [of "h # t"] by auto
  then have r: "\<forall>a\<in>set (butlast (h # t)). fn_right (m' a) = fn_right (m a)"
    using assms(2) by (auto simp: m'_def fn_set_defs dest: in_set_butlastD)
  have l: "\<forall>a\<in>set (tl (h # t)). fn_left (m' a) = fn_left (m a)"
    using assms(2) d by (auto simp: m'_def fn_set_defs)
  have p': "successively (linked m') (h # t)"
    by (rule path_frame [OF p r l])
  have "linked m' l x" "linked m' x h"
    using assms(2) lin by (auto simp: linked_def m'_def fn_set_defs)
  then have "ring m' (h # t @ [x])"
    using p' d assms(2,3)
    by (simp add: ring_def successively_append_iff [of _ "h # t" "[x]", simplified])
  then show ?thesis by (simp add: m'_def)
qed

text \<open>
  \<^verbatim>\<open>insert_node(x)\<close> puts \<open>x\<close> into the ring of roots to the left of \<^verbatim>\<open>min\<close>, that is
  at the end of the ring read from \<^verbatim>\<open>min\<close>; on an empty heap it makes \<open>x\<close> a ring of
  its own.
\<close>

lemma insert_node_ring:
  assumes "ring m (h # t)" "x \<notin> set (h # t)"
  shows "\<exists>m'. insert_node (Some x) (Some h) m
            = Inr (if fn_key (m x) < fn_key (m h) then Some x else Some h, m')
          \<and> ring m' (h # t @ [x]) \<and> mods {} (insert x (set (h # t))) m m'"
proof -
  define l where "l = last (h # t)"
  define m' where "m' = fn_set_right x (Some h) (fn_set_left h (Some x)
            (fn_set_left x (Some l) (fn_set_right l (Some x) m)))"
  have lh: "fn_left (m h) = Some l"
    using ring_left_hd [OF assms(1)] by (simp add: l_def)
  have lin: "l \<in> set (h # t)" unfolding l_def by (rule last_in_set) simp
  have keys: "fn_key (m' a) = fn_key (m a)" for a
    by (simp add: m'_def fn_set_defs)
  have "insert_node (Some x) (Some h) m
      = Inr (if fn_key (m x) < fn_key (m h) then Some x else Some h, m')"
    using lh by (simp add: insert_node_def Let_def m'_def [symmetric] keys)
  moreover have "ring m' (h # t @ [x])"
    unfolding m'_def by (rule ring_snoc [OF assms l_def])
  moreover have "mods {} (insert x (set (h # t))) m m'"
    using lin by (auto simp: mods_def m'_def fn_set_defs)
  ultimately show ?thesis by blast
qed

lemma insert_node_first:
  assumes "fn_left (m x) = Some l"
  shows "\<exists>m'. insert_node (Some x) None m = Inr (Some x, m') \<and> ring m' [x]
          \<and> mods {} {l, x} m m'"
proof -
  define m' where "m' = fn_set_right x (Some x) (fn_set_left x (Some x)
            (fn_set_left x (Some l) (fn_set_right l (Some x) m)))"
  have "insert_node (Some x) None m = Inr (Some x, m')"
    using assms by (simp add: insert_node_def Let_def m'_def [symmetric])
  moreover have "ring m' [x]"
    by (simp add: ring_single m'_def fn_set_defs)
  moreover have "mods {} {l, x} m m'"
    by (auto simp: mods_def m'_def fn_set_defs)
  ultimately show ?thesis by blast
qed

lemma fal_simps [simp]:
  "fal [] = []" "fal (t # F) = tal t @ fal F" "fal (F @ F') = fal F @ fal F'"
  by (simp_all add: fal_def)

lemma fkeys_simps [simp]:
  "fkeys [] = {#}" "fkeys (t # F) = tkeys t + fkeys F" "fkeys (F @ F') = fkeys F + fkeys F'"
  by (simp_all add: fkeys_def)

lemma tal_eq: "tal t = faddr t # fal (kids t)"
  by (cases t) (simp add: fal_def)

lemma tkeys_eq: "tkeys t = {#fkey t#} + fkeys (kids t)"
  by (cases t) (simp add: fkeys_def)

lemma faddr_in_tal [simp]: "faddr t \<in> set (tal t)"
  by (simp add: tal_eq)

lemma tal_in_fal: "t \<in> set F \<Longrightarrow> set (tal t) \<subseteq> set (fal F)"
  by (auto simp: fal_def)

lemma faddr_in_fal: "t \<in> set F \<Longrightarrow> faddr t \<in> set (fal F)"
  using tal_in_fal [of t F] by auto

lemma ftrep_frame0:
  assumes "ftrep m t"
    and "\<forall>a\<in>set (tal t). fn_key (m' a) = fn_key (m a) \<and> fn_child (m' a) = fn_child (m a)
           \<and> fn_degree (m' a) = fn_degree (m a)"
    and "\<forall>a\<in>set (fal (kids t)). fn_left (m' a) = fn_left (m a)
           \<and> fn_right (m' a) = fn_right (m a)"
  shows "ftrep m' t"
  using assms
proof (induction t)
  case (FNode a k cs)
  have c: "ftrep m' c" if "c \<in> set cs" for c
  proof (rule FNode.IH [OF that])
    show "ftrep m c" using FNode.prems(1) that by simp
    show "\<forall>a\<in>set (tal c). fn_key (m' a) = fn_key (m a) \<and> fn_child (m' a) = fn_child (m a)
           \<and> fn_degree (m' a) = fn_degree (m a)"
      using FNode.prems(2) that by auto
    have "set (fal (kids c)) \<subseteq> set (tal c)" by (auto simp: tal_eq)
    also have "\<dots> \<subseteq> set (fal cs)" using that by (rule tal_in_fal)
    finally show "\<forall>a\<in>set (fal (kids c)). fn_left (m' a) = fn_left (m a)
           \<and> fn_right (m' a) = fn_right (m a)"
      using FNode.prems(3) by auto
  qed
  have r: "ring m' (map faddr cs)" if "ring m (map faddr cs)"
    using that by (rule ring_frame) (use FNode.prems(3) in \<open>auto dest: faddr_in_fal\<close>)
  show ?case
    using FNode.prems(1,2) c r by auto
qed

lemma ftrep_frame:
  assumes "ftrep m t" "mods S L m m'" "S \<inter> set (tal t) = {}" "L \<inter> set (fal (kids t)) = {}"
  shows "ftrep m' t"
  using assms(1)
  by (rule ftrep_frame0) (use assms(2-4) in \<open>auto simp: mods_def\<close>)

lemma theap_lower: "theap t \<Longrightarrow> x \<in># tkeys t \<Longrightarrow> fkey t \<le> x"
proof (induction t arbitrary: x)
  case (FNode a k cs)
  from FNode.prems(2) consider "x = k" | c where "c \<in> set cs" "x \<in># tkeys c"
    by auto
  then show ?case
  proof cases
    case 1
    then show ?thesis by simp
  next
    case 2
    with FNode.prems(1) have "k \<le> fkey c" "theap c" by auto
    with FNode.IH [OF 2(1) \<open>theap c\<close> 2(2)] show ?thesis by simp
  qed
qed

lemma size_tkeys_pos: "0 < size (tkeys t)"
  by (cases t) simp

lemma length_le_size_fkeys: "length F \<le> size (fkeys F)"
proof (induction F)
  case (Cons t F)
  then show ?case using size_tkeys_pos [of t] by simp
qed simp

lemma fkeys_empty: "fkeys F = {#} \<longleftrightarrow> F = []"
  using length_le_size_fkeys [of F] by (cases F) (auto simp: tkeys_eq)

lemma root_notin_desc:
  assumes "distinct (fal G)" "t \<in> set G" "t' \<in> set G"
  shows "faddr t' \<notin> set (fal (kids t))"
proof -
  from assms(2) obtain G1 G2 where G: "G = G1 @ t # G2" by (auto dest: split_list)
  show ?thesis
  proof (cases "t' = t")
    case True
    with assms(1) G show ?thesis by (simp add: tal_eq)
  next
    case False
    with assms(3) G have "t' \<in> set G1 \<or> t' \<in> set G2" by auto
    then have "faddr t' \<in> set (fal G1) \<or> faddr t' \<in> set (fal G2)"
      by (auto dest: faddr_in_fal)
    with assms(1) G show ?thesis by (auto simp: tal_eq)
  qed
qed

lemma froots_frame:
  assumes "\<forall>t\<in>set G. ftrep m t" "distinct (fal G)" "mods S L m m'"
    and "S \<inter> set (fal G) = {}" "L \<subseteq> faddr ` set G \<union> X" "X \<inter> set (fal G) = {}"
    and "t \<in> set G"
  shows "ftrep m' t"
proof (rule ftrep_frame [OF _ assms(3)])
  show "ftrep m t" using assms(1,7) by simp
  show "S \<inter> set (tal t) = {}" using assms(4) tal_in_fal [OF assms(7)] by auto
  have "a \<notin> set (fal (kids t))" if "a \<in> L" for a
  proof -
    from that assms(5) consider t' where "t' \<in> set G" "a = faddr t'" | "a \<in> X" by auto
    then show ?thesis
    proof cases
      case 1
      then show ?thesis using root_notin_desc [OF assms(2,7)] by simp
    next
      case 2
      have "set (fal (kids t)) \<subseteq> set (tal t)" by (auto simp: tal_eq)
      with tal_in_fal [OF assms(7)] 2 assms(6) show ?thesis by auto
    qed
  qed
  then show "L \<inter> set (fal (kids t)) = {}" by auto
qed

lemma froots_roots_in: "froots m G r \<Longrightarrow> set r \<subseteq> set (fal G)"
  by (auto simp: froots_def dest: faddr_in_fal)

lemma froots_Nil: "froots m G [] \<Longrightarrow> G = []"
  by (simp add: froots_def)

text \<open>
  \<^verbatim>\<open>insert(key)\<close> on a well-formed heap leaves a well-formed heap with one more tree.
\<close>

lemma fh_insert_correct:
  fixes w :: "('k::linorder) fworld"
  assumes "finv h w G" "size (fkeys G) + 1 < 2 ^ 64"
  shows "\<exists>x h' w'. fh_insert k h w = (Inr x, h', w') \<and> finv h' w' (FNode x k [] # G)"
proof -
  define x where "x = f_next w"
  define m0 where "m0 = f_nodes w"
  define m where "m = m0(x := \<lparr>fn_p = None, fn_child = None, fn_left = Some x,
                               fn_right = Some x, fn_degree = 0, fn_key = k,
                               fn_mark = False\<rparr>)"
  from assms(1) obtain r where r: "froots m0 G r"
    and mn: "f_min h = (if r = [] then None else Some (hd r))"
    and least: "r \<noteq> [] \<longrightarrow> (\<forall>t\<in>set G. fn_key (m0 (hd r)) \<le> fkey t)"
    and fresh: "\<forall>a\<in>set (fal G). a < f_next w" and sz: "unat (f_size h) = size (fkeys G)"
    by (auto simp: finv_def m0_def)
  have xG: "x \<notin> set (fal G)" using fresh by (auto simp: x_def)
  have xr: "x \<notin> set r" using froots_roots_in [OF r] xG by auto
  have same: "a \<noteq> x \<Longrightarrow> m a = m0 a" for a by (simp add: m_def)
  have samer: "a \<in> set r \<Longrightarrow> m a = m0 a" for a using xr by (auto simp: m_def)
  have tm: "ftrep m t" if "t \<in> set G" for t
  proof (rule ftrep_frame0)
    show "ftrep m0 t" using r that by (simp add: froots_def)
    have sub: "set (fal (kids t)) \<subseteq> set (tal t)" by (auto simp: tal_eq)
    have "a \<noteq> x" if "a \<in> set (tal t)" for a
      using that tal_in_fal [OF \<open>t \<in> set G\<close>] xG by auto
    then have "\<forall>a\<in>set (tal t). m a = m0 a" by (simp add: same)
    with sub
    show "\<forall>a\<in>set (tal t). fn_key (m a) = fn_key (m0 a) \<and> fn_child (m a) = fn_child (m0 a)
           \<and> fn_degree (m a) = fn_degree (m0 a)"
      "\<forall>a\<in>set (fal (kids t)). fn_left (m a) = fn_left (m0 a)
           \<and> fn_right (m a) = fn_right (m0 a)"
      by auto
  qed
  have dG: "distinct (fal G)" and hG: "\<forall>t\<in>set G. theap t" and sr: "set r = faddr ` set G"
    using r by (simp_all add: froots_def)
  have "unat (f_size h) + unat (1::64 word) < 2 ^ LENGTH(64)"
    using sz assms(2) by simp
  then have "unat (f_size h + 1) = unat (f_size h) + unat (1::64 word)"
    by (simp only: unat_add_lem)
  then have sz': "unat (f_size h + 1) = size (fkeys (FNode x k [] # G))"
    using sz by simp
  have fresh': "\<forall>a\<in>set (fal (FNode x k [] # G)). a < Suc x"
    using fresh by (auto simp: x_def)
  have d': "distinct (fal (FNode x k [] # G))" using dG xG by simp
  show ?thesis
  proof (cases r)
    case Nil
    with r have G: "G = []" by (simp add: froots_Nil)
    have "fn_left (m x) = Some x" by (simp add: m_def)
    from insert_node_first [of m x x, OF this] obtain m' where
      i: "insert_node (Some x) None m = Inr (Some x, m')" "ring m' [x]" "mods {} {x, x} m m'"
      by blast
    have ins: "fh_insert k h w
       = (Inr x, \<lparr>f_min = Some x, f_size = f_size h + 1\<rparr>, \<lparr>f_nodes = m', f_next = Suc x\<rparr>)"
      using i(1) mn Nil
      by (simp add: fh_insert_def x_def [symmetric] m0_def [symmetric] m_def [symmetric] Let_def)
    have "ftrep m' (FNode x k [])"
      using i(3) by (simp add: mods_def m_def)
    then have "froots m' (FNode x k [] # G) [x]"
      using i(2) G by (simp add: froots_def)
    moreover have "fn_key (m' x) = k" using i(3) by (simp add: mods_def m_def)
    ultimately have "finv \<lparr>f_min = Some x, f_size = f_size h + 1\<rparr>
        \<lparr>f_nodes = m', f_next = Suc x\<rparr> (FNode x k [] # G)"
      unfolding finv_def using sz' fresh' G
      by (intro conjI exI [of _ "[x]"]) (simp_all del: fal_simps fkeys_simps)
    with ins show ?thesis by blast
  next
    case (Cons hr tr)
    with r have "ring m0 (hr # tr)" by (simp add: froots_def)
    then have rm: "ring m (hr # tr)"
      by (rule ring_frame) (use Cons in \<open>auto simp: samer\<close>)
    have xr': "x \<notin> set (hr # tr)" using xr Cons by simp
    from insert_node_ring [OF rm xr'] obtain m' where
      i: "insert_node (Some x) (Some hr) m
           = Inr (if fn_key (m x) < fn_key (m hr) then Some x else Some hr, m')"
      "ring m' (hr # tr @ [x])" "mods {} (insert x (set (hr # tr))) m m'"
      by blast
    define r' where "r' = (if fn_key (m x) < fn_key (m hr) then x # hr # tr else hr # tr @ [x])"
    have ins: "fh_insert k h w
       = (Inr x, \<lparr>f_min = Some (hd r'), f_size = f_size h + 1\<rparr>,
          \<lparr>f_nodes = m', f_next = Suc x\<rparr>)"
      using i(1) mn Cons
      by (simp add: fh_insert_def x_def [symmetric] m0_def [symmetric] m_def [symmetric]
          Let_def r'_def)
    have ring': "ring m' r'"
      using i(2) ring_rotate [of m' "hr # tr" "[x]"] by (simp add: r'_def)
    have keys: "fn_key (m' a) = fn_key (m a)" for a using i(3) by (simp add: mods_def)
    have tm': "ftrep m' t" if "t \<in> set G" for t
    proof (rule froots_frame [OF _ dG i(3) _ _ _ that])
      show "\<forall>t\<in>set G. ftrep m t" using tm by simp
      show "{} \<inter> set (fal G) = {}" by simp
      show "insert x (set (hr # tr)) \<subseteq> faddr ` set G \<union> {x}" using sr Cons by auto
      show "{x} \<inter> set (fal G) = {}" using xG by simp
    qed
    have "ftrep m' (FNode x k [])"
      using i(3) by (simp add: mods_def m_def)
    then have fr: "froots m' (FNode x k [] # G) r'"
      using ring' tm' hG d' sr Cons unfolding froots_def
      by (auto simp: r'_def simp del: fal_simps)
    have hrx: "hr \<noteq> x" using xr' by auto
    have kx: "fn_key (m x) = k" by (simp add: m_def)
    have khr: "fn_key (m hr) = fn_key (m0 hr)" using hrx by (simp add: same)
    have l0: "\<forall>t\<in>set G. fn_key (m0 hr) \<le> fkey t" using least Cons by simp
    have "\<forall>t\<in>set (FNode x k [] # G). fn_key (m' (hd r')) \<le> fkey t"
      using l0 by (auto simp: r'_def keys kx khr)
    then have "finv \<lparr>f_min = Some (hd r'), f_size = f_size h + 1\<rparr>
        \<lparr>f_nodes = m', f_next = Suc x\<rparr> (FNode x k [] # G)"
      unfolding finv_def using sz' fresh' fr
      by (intro conjI exI [of _ r']) (auto simp: r'_def simp del: fal_simps fkeys_simps)
    with ins show ?thesis by blast
  qed
qed

lemma fh_insert_list_correct:
  fixes w :: "('k::linorder) fworld"
  assumes "finv h w G" "size (fkeys G) + length ks < 2 ^ 64"
  shows "\<exists>xs h' w' G'. fh_insert_list ks h w = Inr (xs, h', w') \<and> finv h' w' G'
           \<and> fkeys G' = mset ks + fkeys G"
  using assms
proof (induction ks arbitrary: h w G)
  case Nil
  then show ?case by auto
next
  case (Cons k ks)
  from Cons.prems have "size (fkeys G) + 1 < 2 ^ 64" by simp
  from fh_insert_correct [OF Cons.prems(1) this] obtain x h1 w1 where
    i: "fh_insert k h w = (Inr x, h1, w1)" "finv h1 w1 (FNode x k [] # G)"
    by blast
  have "size (fkeys (FNode x k [] # G)) + length ks < 2 ^ 64"
    using Cons.prems(2) by simp
  from Cons.IH [OF i(2) this] obtain xs h' w' G' where
    "fh_insert_list ks h1 w1 = Inr (xs, h', w')" "finv h' w' G'"
    "fkeys G' = mset ks + fkeys (FNode x k [] # G)"
    by blast
  with i show ?case by (auto simp: ac_simps)
qed

lemma fn_get_set [simp]:
  "fn_key (fn_set_p a vp m b) = fn_key (m b)"
  "fn_key (fn_set_child a vch m b) = fn_key (m b)"
  "fn_key (fn_set_left a vle m b) = fn_key (m b)"
  "fn_key (fn_set_right a vri m b) = fn_key (m b)"
  "fn_key (fn_set_degree a vde m b) = fn_key (m b)"
  "fn_key (fn_set_mark a vma m b) = fn_key (m b)"
  "fn_child (fn_set_p a vp m b) = fn_child (m b)"
  "fn_child (fn_set_child a vch m b) = (if b = a then vch else fn_child (m b))"
  "fn_child (fn_set_left a vle m b) = fn_child (m b)"
  "fn_child (fn_set_right a vri m b) = fn_child (m b)"
  "fn_child (fn_set_degree a vde m b) = fn_child (m b)"
  "fn_child (fn_set_mark a vma m b) = fn_child (m b)"
  "fn_degree (fn_set_p a vp m b) = fn_degree (m b)"
  "fn_degree (fn_set_child a vch m b) = fn_degree (m b)"
  "fn_degree (fn_set_left a vle m b) = fn_degree (m b)"
  "fn_degree (fn_set_right a vri m b) = fn_degree (m b)"
  "fn_degree (fn_set_degree a vde m b) = (if b = a then vde else fn_degree (m b))"
  "fn_degree (fn_set_mark a vma m b) = fn_degree (m b)"
  "fn_left (fn_set_p a vp m b) = fn_left (m b)"
  "fn_left (fn_set_child a vch m b) = fn_left (m b)"
  "fn_left (fn_set_left a vle m b) = (if b = a then vle else fn_left (m b))"
  "fn_left (fn_set_right a vri m b) = fn_left (m b)"
  "fn_left (fn_set_degree a vde m b) = fn_left (m b)"
  "fn_left (fn_set_mark a vma m b) = fn_left (m b)"
  "fn_right (fn_set_p a vp m b) = fn_right (m b)"
  "fn_right (fn_set_child a vch m b) = fn_right (m b)"
  "fn_right (fn_set_left a vle m b) = fn_right (m b)"
  "fn_right (fn_set_right a vri m b) = (if b = a then vri else fn_right (m b))"
  "fn_right (fn_set_degree a vde m b) = fn_right (m b)"
  "fn_right (fn_set_mark a vma m b) = fn_right (m b)"
  "fn_p (fn_set_p a vp m b) = (if b = a then vp else fn_p (m b))"
  "fn_p (fn_set_child a vch m b) = fn_p (m b)"
  "fn_p (fn_set_left a vle m b) = fn_p (m b)"
  "fn_p (fn_set_right a vri m b) = fn_p (m b)"
  "fn_p (fn_set_degree a vde m b) = fn_p (m b)"
  "fn_p (fn_set_mark a vma m b) = fn_p (m b)"
  "fn_mark (fn_set_p a vp m b) = fn_mark (m b)"
  "fn_mark (fn_set_child a vch m b) = fn_mark (m b)"
  "fn_mark (fn_set_left a vle m b) = fn_mark (m b)"
  "fn_mark (fn_set_right a vri m b) = fn_mark (m b)"
  "fn_mark (fn_set_degree a vde m b) = fn_mark (m b)"
  "fn_mark (fn_set_mark a vma m b) = (if b = a then vma else fn_mark (m b))"
  by (simp_all add: fn_set_defs)

lemma ring_snoc_gen:
  assumes "ring m (h # t)" "x \<notin> set (h # t)"
    and "\<forall>a\<in>set (butlast (h # t)). fn_right (m' a) = fn_right (m a)"
    and "\<forall>a\<in>set t. fn_left (m' a) = fn_left (m a)"
    and "linked m' (last (h # t)) x" "linked m' x h"
  shows "ring m' (h # t @ [x])"
proof -
  from assms(1) have d: "distinct (h # t)" and p: "successively (linked m) (h # t)"
    by (simp_all add: ring_def)
  have "successively (linked m') (h # t)"
    by (rule path_frame [OF p assms(3)]) (use assms(4) in simp)
  then show ?thesis
    using d assms(2,5,6)
    by (simp add: ring_def successively_append_iff [of _ "h # t" "[x]", simplified])
qed

lemma ring_remove_hd:
  assumes "ring m (y # a # r)"
    and "\<forall>b\<in>set (butlast (a # r)). fn_right (m' b) = fn_right (m b)"
    and "\<forall>b\<in>set r. fn_left (m' b) = fn_left (m b)"
    and "linked m' (last (a # r)) a"
  shows "ring m' (a # r)"
proof -
  from assms(1) have d: "distinct (a # r)" and p: "successively (linked m) (a # r)"
    by (simp_all add: ring_def)
  have "successively (linked m') (a # r)"
    by (rule path_frame [OF p assms(2)]) (use assms(3) in simp)
  then show ?thesis using d assms(4) by (simp add: ring_def)
qed

text \<open>
  One round of the loop of \<^verbatim>\<open>pop\<close> over the children of the minimum.
\<close>

lemma pop_splice_step:
  fixes m :: "('k::linorder) fmem"
  assumes "fn_left (m x) = Some xl" "fn_right (m x) = Some nx"
    and "xr = (if x = xl then x else nx)" "xr \<noteq> z" "fn_left (m z) = Some l0"
    and "\<not> fn_key (m x) < fn_key (m z)" "x \<noteq> z"
  shows "pop_splice_loop (Suc n) (Some x) (Some z) m =
           (if fn_right (m x) \<noteq> Some x
            then pop_splice_loop n (fn_right (m x)) (Some z) (splice_mem m x z xl xr l0)
            else Some (Inr (Some z, splice_mem m x z xl xr l0)))"
proof (cases "x = xl")
  case True
  with assms have "xr = x" by simp
  with assms True show ?thesis
    by (simp add: Let_def insert_node_def splice_mem_def)
next
  case False
  with assms have "xr = nx" by simp
  with assms False show ?thesis
    by (simp add: Let_def insert_node_def splice_mem_def)
qed

text \<open>
  The loop from its second round on. The children \<open>cs\<close> not yet moved are linked in a
  row, \<^verbatim>\<open>right\<close> of the last one is that node itself, and \<^verbatim>\<open>left\<close> of the first one is
  either that node itself or the last root: the two outcomes of the unlinking
  assignments of the round before.
\<close>

lemma pop_splice_general:
  fixes m :: "('k::linorder) fmem"
  assumes "ring m (z # r)" "cs \<noteq> []" "distinct cs" "set cs \<inter> set (z # r) = {}"
    and "successively (linked m) cs" "fn_right (m (last cs)) = Some (last cs)"
    and "fn_left (m (hd cs)) = Some (hd cs) \<or> fn_left (m (hd cs)) = Some (last (z # r))"
    and "\<forall>c\<in>set cs. \<not> fn_key (m c) < fn_key (m z)" "length cs \<le> n"
  shows "\<exists>m'. pop_splice_loop n (Some (hd cs)) (Some z) m = Some (Inr (Some z, m'))
           \<and> ring m' (z # r @ cs) \<and> mods {} (set (z # r) \<union> set cs) m m'
           \<and> (\<forall>a. fn_p (m' a) = (if a \<in> set cs then None else fn_p (m a)))
           \<and> (\<forall>a. fn_mark (m' a) = fn_mark (m a))"
  using assms
proof (induction cs arbitrary: m r n)
  case Nil
  then show ?case by simp
next
  case (Cons c rest)
  from Cons.prems(9) obtain n' where n: "n = Suc n'" by (cases n) auto
  define l0 where "l0 = last (z # r)"
  have l0in: "l0 \<in> set (z # r)" unfolding l0_def by (rule last_in_set) simp
  have cz: "c \<noteq> z" "c \<notin> set r" "c \<noteq> l0" using Cons.prems(4) l0in by auto
  have lz: "fn_left (m z) = Some l0"
    using ring_left_hd [OF Cons.prems(1)] by (simp add: l0_def)
  define xl where "xl = (if fn_left (m c) = Some c then c else l0)"
  have lc: "fn_left (m c) = Some xl"
    using Cons.prems(7) by (auto simp: xl_def l0_def)
  define nx where "nx = (if rest = [] then c else hd rest)"
  have rc: "fn_right (m c) = Some nx"
    using Cons.prems(5,6) by (cases rest) (auto simp: nx_def linked_def)
  define xr where "xr = (if c = xl then c else nx)"
  have xrin: "xr \<in> set (c # rest)" by (cases rest) (auto simp: xr_def nx_def)
  then have xrz: "xr \<noteq> z" "xr \<notin> set r" using Cons.prems(4) by auto
  have a4: "\<not> fn_key (m c) < fn_key (m z)" using Cons.prems(8) by simp
  define m4 where "m4 = splice_mem m c z xl xr l0"
  have step: "pop_splice_loop n (Some c) (Some z) m =
           (if fn_right (m c) \<noteq> Some c
            then pop_splice_loop n' (fn_right (m c)) (Some z) m4
            else Some (Inr (Some z, m4)))"
    unfolding n m4_def by (rule pop_splice_step [OF lc rc xr_def xrz(1) lz a4 cz(1)])
  have xlin: "xl = c \<or> xl = l0" by (simp add: xl_def)
  have nb: "a \<noteq> l0" if "a \<in> set (butlast (z # r))" for a
    using that Cons.prems(1) last_notin_butlast [of "z # r"]
    by (auto simp: ring_def l0_def)
  have ring4: "ring m4 (z # r @ [c])"
  proof (rule ring_snoc_gen [OF Cons.prems(1)])
    show "c \<notin> set (z # r)" using cz by simp
    show "\<forall>a\<in>set (butlast (z # r)). fn_right (m4 a) = fn_right (m a)"
    proof
      fix a assume a: "a \<in> set (butlast (z # r))"
      then have "a \<noteq> l0" by (rule nb)
      moreover have "a \<noteq> c" using in_set_butlastD [OF a] cz by auto
      ultimately show "fn_right (m4 a) = fn_right (m a)"
        using xlin by (auto simp: m4_def splice_mem_def)
    qed
    show "\<forall>a\<in>set r. fn_left (m4 a) = fn_left (m a)"
      using cz xrz Cons.prems(1) by (auto simp: m4_def splice_mem_def ring_def)
    have "linked m4 l0 c"
      using cz by (auto simp: linked_def m4_def splice_mem_def)
    then show "linked m4 (last (z # r)) c" by (simp only: l0_def)
    show "linked m4 c z"
      using cz by (auto simp: linked_def m4_def splice_mem_def)
  qed
  have mods4: "mods {} (set (z # r) \<union> set (c # rest)) m m4"
    using xlin xrin l0in by (auto simp: mods_def m4_def splice_mem_def)
  have keys4: "fn_key (m4 a) = fn_key (m a)" for a
    by (simp add: m4_def splice_mem_def)
  have pm4: "fn_p (m4 a) = (if a = c then None else fn_p (m a))"
    "fn_mark (m4 a) = fn_mark (m a)" for a
    by (simp_all add: m4_def splice_mem_def)
  show ?case
  proof (cases rest)
    case Nil
    then have "fn_right (m c) = Some c" using rc by (simp add: nx_def)
    with step ring4 mods4 Nil pm4 show ?thesis by auto
  next
    case (Cons c1 rest')
    then have nx1: "nx = c1" by (simp add: nx_def)
    have c1: "c1 \<noteq> c" "c1 \<notin> set rest'" "c1 \<noteq> z" "c1 \<notin> set r" "c1 \<noteq> l0"
      using Cons.prems(3,4) Cons l0in by auto
    have step': "pop_splice_loop n (Some c) (Some z) m
        = pop_splice_loop n' (Some (hd rest)) (Some z) m4"
      using step rc nx1 c1 Cons by simp
    have b1: "ring m4 (z # (r @ [c]))" using ring4 by simp
    have b2: "rest \<noteq> []" using Cons by simp
    have b3: "distinct rest" using Cons.prems(3) by simp
    have b4: "set rest \<inter> set (z # (r @ [c])) = {}"
      using Cons.prems(3,4) by auto
    have p: "successively (linked m) rest"
      using Cons.prems(5) b2 by (simp add: successively_Cons)
    have notl: "a \<noteq> l0" "a \<noteq> c" "a \<noteq> z" if "a \<in> set rest" for a
      using that Cons.prems(3,4) l0in by auto
    have b5: "successively (linked m4) rest"
    proof (rule path_frame [OF p])
      show "\<forall>a\<in>set (butlast rest). fn_right (m4 a) = fn_right (m a)"
        using notl xlin by (auto simp: m4_def splice_mem_def dest!: in_set_butlastD)
      have "xr \<notin> set (tl rest)" using c1 Cons cz Cons.prems(3) by (auto simp: xr_def nx1)
      then show "\<forall>a\<in>set (tl rest). fn_left (m4 a) = fn_left (m a)"
        using notl Cons by (auto simp: m4_def splice_mem_def)
    qed
    have lastin: "last rest \<in> set rest" using b2 by simp
    have "last (c # rest) = last rest" using b2 by simp
    then have b6: "fn_right (m4 (last rest)) = Some (last rest)"
      using Cons.prems(6) notl [OF lastin] xlin
      by (auto simp: m4_def splice_mem_def)
    have lc1: "fn_left (m c1) = Some c"
      using Cons.prems(5) Cons by (simp add: linked_def)
    have b7: "fn_left (m4 (hd rest)) = Some (hd rest)
        \<or> fn_left (m4 (hd rest)) = Some (last (z # (r @ [c])))"
      using c1 Cons lc1 by (auto simp: m4_def splice_mem_def xr_def nx1)
    have b8: "\<forall>c\<in>set rest. \<not> fn_key (m4 c) < fn_key (m4 z)"
      using Cons.prems(8) by (simp add: keys4)
    have b9: "length rest \<le> n'" using Cons.prems(9) n by simp
    from Cons.IH [OF b1 b2 b3 b4 b5 b6 b7 b8 b9] obtain m' where
      r: "pop_splice_loop n' (Some (hd rest)) (Some z) m4 = Some (Inr (Some z, m'))"
      "ring m' (z # (r @ [c]) @ rest)"
      "mods {} (set (z # (r @ [c])) \<union> set rest) m4 m'"
      "\<forall>a. fn_p (m' a) = (if a \<in> set rest then None else fn_p (m4 a))"
      "\<forall>a. fn_mark (m' a) = fn_mark (m4 a)"
      by blast
    have "mods {} (set (z # r) \<union> set (c # rest)) m m'"
      using mods_trans [OF mods4 r(3)] by (rule mods_mono) auto
    moreover have "\<forall>a. fn_p (m' a) = (if a \<in> set (c # rest) then None else fn_p (m a))"
      using r(4) pm4(1) by simp
    moreover have "\<forall>a. fn_mark (m' a) = fn_mark (m a)"
      using r(5) pm4(2) by simp
    ultimately show ?thesis using step' r(1,2) by auto
  qed
qed

text \<open>
  The loop from its first round, entered with the children in a ring.
\<close>

lemma pop_splice_ring:
  fixes m :: "('k::linorder) fmem"
  assumes "ring m (z # r)" "ring m cs" "set cs \<inter> set (z # r) = {}"
    and "\<forall>c\<in>set cs. \<not> fn_key (m c) < fn_key (m z)" "length cs \<le> n"
  shows "\<exists>m'. pop_splice_loop n (Some (hd cs)) (Some z) m = Some (Inr (Some z, m'))
           \<and> ring m' (z # r @ cs) \<and> mods {} (set (z # r) \<union> set cs) m m'
           \<and> (\<forall>a. fn_p (m' a) = (if a \<in> set cs then None else fn_p (m a)))
           \<and> (\<forall>a. fn_mark (m' a) = fn_mark (m a))"
proof -
  from assms(2) obtain c rest where cs: "cs = c # rest" by (cases cs) (auto simp: ring_def)
  from assms(2) have dcs: "distinct cs" and pcs: "successively (linked m) cs"
    by (simp_all add: ring_def)
  show ?thesis
  proof (cases rest)
    case Nil
    with assms(2) cs have "fn_right (m c) = Some c" "fn_left (m c) = Some c"
      by (simp_all add: ring_single)
    then have "fn_right (m (last cs)) = Some (last cs)"
      "fn_left (m (hd cs)) = Some (hd cs) \<or> fn_left (m (hd cs)) = Some (last (z # r))"
      using cs Nil by simp_all
    from pop_splice_general [OF assms(1) _ dcs assms(3) pcs this assms(4,5)] cs
    show ?thesis by simp
  next
    case (Cons c1 rest')
    from assms(5) cs obtain n' where n: "n = Suc n'" by (cases n) auto
    define l0 where "l0 = last (z # r)"
    define xl where "xl = last rest"
    have l0in: "l0 \<in> set (z # r)" unfolding l0_def by (rule last_in_set) simp
    have xlin: "xl \<in> set rest" unfolding xl_def using Cons by simp
    have cz: "c \<noteq> z" "c \<notin> set r" "c \<noteq> l0" "c \<notin> set rest" "c \<noteq> xl"
      using assms(3) l0in cs dcs xlin by auto
    have c1: "c1 \<noteq> c" "c1 \<notin> set rest'" "c1 \<noteq> z" "c1 \<notin> set r" "c1 \<noteq> l0"
      using assms(3) dcs cs Cons l0in by auto
    have notl: "a \<noteq> l0" "a \<noteq> c" "a \<noteq> z" if "a \<in> set rest" for a
      using that assms(3) dcs cs l0in by auto
    have lz: "fn_left (m z) = Some l0"
      using ring_left_hd [OF assms(1)] by (simp add: l0_def)
    have lc: "fn_left (m c) = Some xl"
      using ring_left_hd [of m c rest] assms(2) cs Cons by (simp add: xl_def)
    have rc: "fn_right (m c) = Some c1"
      using ring_right_hd [of m c rest] assms(2) cs Cons by simp
    have xr: "c1 = (if c = xl then c else c1)" using cz by simp
    have a4: "\<not> fn_key (m c) < fn_key (m z)" using assms(4) cs by simp
    define m4 where "m4 = splice_mem m c z xl c1 l0"
    have step: "pop_splice_loop n (Some c) (Some z) m
        = pop_splice_loop n' (Some (hd rest)) (Some z) m4"
      unfolding n m4_def
      using pop_splice_step [OF lc rc xr c1(3) lz a4 cz(1)] rc c1 Cons by simp
    have nb: "a \<noteq> l0" if "a \<in> set (butlast (z # r))" for a
      using that assms(1) last_notin_butlast [of "z # r"]
      by (auto simp: ring_def l0_def)
    have xlr: "xl \<noteq> z" "xl \<notin> set r" "xl \<noteq> l0" using notl [OF xlin] assms(3) cs xlin by auto
    have ring4: "ring m4 (z # r @ [c])"
    proof (rule ring_snoc_gen [OF assms(1)])
      show "c \<notin> set (z # r)" using cz by simp
      show "\<forall>a\<in>set (butlast (z # r)). fn_right (m4 a) = fn_right (m a)"
      proof
        fix a assume a: "a \<in> set (butlast (z # r))"
        then have "a \<noteq> l0" by (rule nb)
        moreover have "a \<noteq> c" "a \<noteq> xl" using in_set_butlastD [OF a] cz xlr by auto
        ultimately show "fn_right (m4 a) = fn_right (m a)"
          by (auto simp: m4_def splice_mem_def)
      qed
      show "\<forall>a\<in>set r. fn_left (m4 a) = fn_left (m a)"
        using cz c1 assms(1) by (auto simp: m4_def splice_mem_def ring_def)
      have "linked m4 l0 c"
        using cz by (auto simp: linked_def m4_def splice_mem_def)
      then show "linked m4 (last (z # r)) c" by (simp only: l0_def)
      show "linked m4 c z"
        using cz by (auto simp: linked_def m4_def splice_mem_def)
    qed
    have mods4: "mods {} (set (z # r) \<union> set cs) m m4"
      using xlin l0in cs Cons by (auto simp: mods_def m4_def splice_mem_def)
    have keys4: "fn_key (m4 a) = fn_key (m a)" for a
      by (simp add: m4_def splice_mem_def)
    have b1: "ring m4 (z # (r @ [c]))" using ring4 by simp
    have b2: "rest \<noteq> []" using Cons by simp
    have b3: "distinct rest" using dcs cs by simp
    have b4: "set rest \<inter> set (z # (r @ [c])) = {}"
      using assms(3) dcs cs by auto
    have p: "successively (linked m) rest"
      using pcs cs b2 by (simp add: successively_Cons)
    have b5: "successively (linked m4) rest"
    proof (rule path_frame [OF p])
      show "\<forall>a\<in>set (butlast rest). fn_right (m4 a) = fn_right (m a)"
      proof
        fix a assume a: "a \<in> set (butlast rest)"
        then have "a \<noteq> xl"
          using last_notin_butlast [OF b3 b2] by (auto simp: xl_def)
        then show "fn_right (m4 a) = fn_right (m a)"
          using notl [OF in_set_butlastD [OF a]] by (auto simp: m4_def splice_mem_def)
      qed
      show "\<forall>a\<in>set (tl rest). fn_left (m4 a) = fn_left (m a)"
        using notl c1 Cons by (auto simp: m4_def splice_mem_def)
    qed
    have b6: "fn_right (m4 (last rest)) = Some (last rest)"
      using xlr cz by (auto simp: m4_def splice_mem_def xl_def [symmetric])
    have b7: "fn_left (m4 (hd rest)) = Some (hd rest)
        \<or> fn_left (m4 (hd rest)) = Some (last (z # (r @ [c])))"
      using c1 Cons by (auto simp: m4_def splice_mem_def)
    have b8: "\<forall>c\<in>set rest. \<not> fn_key (m4 c) < fn_key (m4 z)"
      using assms(4) cs by (simp add: keys4)
    have b9: "length rest \<le> n'" using assms(5) n cs by simp
    from pop_splice_general [OF b1 b2 b3 b4 b5 b6 b7 b8 b9] obtain m' where
      r: "pop_splice_loop n' (Some (hd rest)) (Some z) m4 = Some (Inr (Some z, m'))"
      "ring m' (z # (r @ [c]) @ rest)"
      "mods {} (set (z # (r @ [c])) \<union> set rest) m4 m'"
      "\<forall>a. fn_p (m' a) = (if a \<in> set rest then None else fn_p (m4 a))"
      "\<forall>a. fn_mark (m' a) = fn_mark (m4 a)"
      by blast
    have pm4: "fn_p (m4 a) = (if a = c then None else fn_p (m a))"
      "fn_mark (m4 a) = fn_mark (m a)" for a
      by (simp_all add: m4_def splice_mem_def)
    have "mods {} (set (z # r) \<union> set cs) m m'"
      using mods_trans [OF mods4 r(3)] by (rule mods_mono) (auto simp: cs)
    moreover have "\<forall>a. fn_p (m' a) = (if a \<in> set cs then None else fn_p (m a))"
      using r(4) pm4(1) cs by simp
    moreover have "\<forall>a. fn_mark (m' a) = fn_mark (m a)"
      using r(5) pm4(2) by simp
    ultimately show ?thesis using step r(1,2) cs by auto
  qed
qed

text \<open>
  Taking the minimum out of the ring of roots.
\<close>

lemma pop_unlink_ring:
  assumes "ring m (z # r)"
  shows "\<exists>m'. pop_unlink z m = Inr (if r = [] then None else Some (hd r), m')
           \<and> (r \<noteq> [] \<longrightarrow> ring m' r) \<and> mods {} (set r) m m'"
proof (cases r)
  case Nil
  with assms have "fn_right (m z) = Some z" "fn_left (m z) = Some z"
    by (simp_all add: ring_single)
  with Nil show ?thesis by (simp add: pop_unlink_def)
next
  case (Cons a r')
  define l0 where "l0 = last (a # r')"
  have l0in: "l0 \<in> set (a # r')" unfolding l0_def by (rule last_in_set) simp
  from assms Cons have d: "distinct (z # a # r')" by (simp add: ring_def)
  have za: "z \<noteq> a" "z \<noteq> l0" "a \<notin> set r'" using d l0in by auto
  have rz: "fn_right (m z) = Some a"
    using ring_right_hd [OF assms] Cons by simp
  have lz: "fn_left (m z) = Some l0"
    using ring_left_hd [OF assms] Cons by (simp add: l0_def)
  define m' where "m' = fn_set_right l0 (Some a) (fn_set_left a (Some l0) m)"
  have pu: "pop_unlink z m = Inr (Some a, m')"
    using rz lz za by (simp add: pop_unlink_def Let_def m'_def)
  have "ring m' (a # r')"
  proof (rule ring_remove_hd)
    show "ring m (z # a # r')" using assms Cons by simp
    show "\<forall>b\<in>set (butlast (a # r')). fn_right (m' b) = fn_right (m b)"
    proof
      fix b assume b: "b \<in> set (butlast (a # r'))"
      then have "b \<noteq> l0"
        using last_notin_butlast [of "a # r'"] d by (auto simp: l0_def)
      then show "fn_right (m' b) = fn_right (m b)" by (simp add: m'_def)
    qed
    show "\<forall>b\<in>set r'. fn_left (m' b) = fn_left (m b)"
      using za by (auto simp: m'_def)
    have "linked m' l0 a" by (simp add: linked_def m'_def)
    then show "linked m' (last (a # r')) a" by (simp only: l0_def)
  qed
  moreover have "mods {} (set r) m m'"
    using l0in Cons by (auto simp: mods_def m'_def)
  ultimately show ?thesis using pu Cons by simp
qed

lemma ring_right_mid:
  assumes "ring m (pre @ x # post)"
  shows "fn_right (m x) = Some (hd (post @ pre @ [x]))"
proof -
  have "ring m ((x # post) @ pre)" using ring_rotate [OF assms] by simp
  then have "ring m (x # post @ pre)" by simp
  from ring_right_hd [OF this] show ?thesis by simp
qed

text \<open>
  The first loop of \<^verbatim>\<open>consolidate\<close> goes once around the ring of roots.
\<close>

lemma collect_correct:
  assumes "ring m r" "r = pre @ x # post" "length post < n"
  shows "consolidate_collect n m (Some (hd r)) (Some x) d k pre
           = Some (Inr (foldl max d (map (\<lambda>a. fn_degree (m a)) (x # post)),
                        k + of_nat (length (x # post)), r))"
  using assms(2,3)
proof (induction post arbitrary: pre x d k n)
  case Nil
  then obtain n' where n: "n = Suc n'" by (cases n) auto
  have "fn_right (m x) = Some (hd (pre @ [x]))"
    using ring_right_mid [of m pre x "[]"] assms(1) Nil by simp
  moreover have "hd r = hd (pre @ [x])" using Nil by simp
  ultimately show ?case using Nil n by (simp add: Let_def)
next
  case (Cons y post)
  then obtain n' where n: "n = Suc n'" by (cases n) auto
  have ry: "fn_right (m x) = Some y"
    using ring_right_mid [of m pre x "y # post"] assms(1) Cons.prems by simp
  have "distinct r" using assms(1) by (simp add: ring_def)
  moreover have "hd r \<in> set (pre @ [x])" using Cons.prems(1) by (cases pre) auto
  ultimately have "y \<noteq> hd r" using Cons.prems(1) by auto
  have r': "r = (pre @ [x]) @ y # post" using Cons.prems by simp
  have "length post < n'" using Cons.prems n by simp
  from Cons.IH [OF r' this, of "max d (fn_degree (m x))" "k + 1"]
  show ?case using ry \<open>y \<noteq> hd r\<close> n by (simp add: Let_def ac_simps)
qed

lemma foldl_max_ge: "(d::'a::linorder) \<le> foldl max d xs \<and> (\<forall>x\<in>set xs. x \<le> foldl max d xs)"
proof (induction xs arbitrary: d)
  case (Cons a xs)
  from Cons [of "max d a"] show ?case by (auto simp: max_def split: if_splits)
qed simp

lemma foldl_max_in: "foldl max (d::'a::linorder) xs = d \<or> foldl max d xs \<in> set xs"
proof (induction xs arbitrary: d)
  case (Cons a xs)
  from Cons [of "max d a"] show ?case by (auto simp: max_def split: if_splits)
qed simp

lemma fib_link_unlink:
  assumes "ring m (y # r)" "r \<noteq> []"
  shows "fib_link y x m =
           (case fib_link_child y x (unlink_mem m y (hd r) (last r)) of
              Inl e \<Rightarrow> Inl e
            | Inr m5 \<Rightarrow> Inr (fn_set_mark y False (fn_set_degree x (fn_degree (m5 x) + 1) m5)))"
    and "ring (unlink_mem m y (hd r) (last r)) r"
    and "ring (unlink_mem m y (hd r) (last r)) [y]"
    and "mods {} (set (y # r)) m (unlink_mem m y (hd r) (last r))"
proof -
  from assms(2) obtain a r' where r: "r = a # r'" by (cases r) auto
  define l where "l = last (a # r')"
  define m' where "m' = unlink_mem m y a l"
  have lin: "l \<in> set (a # r')" unfolding l_def by (rule last_in_set) simp
  from assms r have d: "distinct (y # a # r')" by (simp add: ring_def)
  have ya: "y \<noteq> a" "y \<noteq> l" "a \<notin> set r'" "y \<notin> set r'" using d lin by auto
  have ry: "fn_right (m y) = Some a"
    using ring_right_hd [OF assms(1)] r by simp
  have ly: "fn_left (m y) = Some l"
    using ring_left_hd [OF assms(1)] r by (simp add: l_def)
  have e: "unlink_mem m y (hd r) (last r) = m'" by (simp add: m'_def r l_def)
  show "fib_link y x m =
           (case fib_link_child y x (unlink_mem m y (hd r) (last r)) of
              Inl e \<Rightarrow> Inl e
            | Inr m5 \<Rightarrow> Inr (fn_set_mark y False (fn_set_degree x (fn_degree (m5 x) + 1) m5)))"
    unfolding e using ry ly ya by (simp add: fib_link_def Let_def m'_def unlink_mem_def)
  have "ring m' (a # r')"
  proof (rule ring_remove_hd)
    show "ring m (y # a # r')" using assms r by simp
    show "\<forall>b\<in>set (butlast (a # r')). fn_right (m' b) = fn_right (m b)"
    proof
      fix b assume b: "b \<in> set (butlast (a # r'))"
      then have "b \<noteq> l"
        using last_notin_butlast [of "a # r'"] d by (auto simp: l_def)
      moreover have "b \<noteq> y" using in_set_butlastD [OF b] d by auto
      ultimately show "fn_right (m' b) = fn_right (m b)" by (simp add: m'_def unlink_mem_def)
    qed
    show "\<forall>b\<in>set r'. fn_left (m' b) = fn_left (m b)"
      using ya by (auto simp: m'_def unlink_mem_def)
    have "linked m' l a" using ya by (simp add: linked_def m'_def unlink_mem_def)
    then show "linked m' (last (a # r')) a" by (simp only: l_def)
  qed
  then show "ring (unlink_mem m y (hd r) (last r)) r" unfolding e by (simp add: r)
  show "ring (unlink_mem m y (hd r) (last r)) [y]"
    unfolding e by (simp add: ring_single m'_def unlink_mem_def)
  show "mods {} (set (y # r)) m (unlink_mem m y (hd r) (last r))"
    unfolding e using lin r by (auto simp: mods_def m'_def unlink_mem_def)
qed

lemma fib_link_child_none:
  assumes "fn_child (m x) = None"
  shows "\<exists>m'. fib_link_child y x m = Inr m' \<and> mods {x} {} m m' \<and> fn_child (m' x) = Some y
           \<and> fn_degree (m' x) = fn_degree (m x)"
  using assms by (auto simp: fib_link_child_def mods_def)

lemma fib_link_child_ring:
  assumes "fn_child (m x) = Some c" "ring m (c # ct)" "y \<notin> set (c # ct)"
  shows "\<exists>m'. fib_link_child y x m = Inr m' \<and> mods {} (insert y (set (c # ct))) m m'
           \<and> ring m' (c # y # ct)"
proof -
  define h where "h = hd (ct @ [c])"
  define t where "t = tl (ct @ [c])"
  have ht: "ct @ [c] = h # t" by (cases ct) (simp_all add: h_def t_def)
  have hin: "h \<in> set (c # ct)" by (cases ct) (simp_all add: h_def)
  have rc: "fn_right (m c) = Some h"
    using ring_right_hd [OF assms(2)] by (simp add: h_def)
  have r1: "ring m (h # t)"
    using ring_rotate [of m "[c]" ct] assms(2) ht by simp
  have y: "y \<notin> set (h # t)" using assms(3) ht [symmetric] by simp
  have l: "c = last (h # t)" using ht [symmetric] by simp
  define m' where "m' = fn_set_right y (Some h) (fn_set_left h (Some y)
            (fn_set_left y (Some c) (fn_set_right c (Some y) m)))"
  have "ring m' (h # t @ [y])"
    unfolding m'_def by (rule ring_snoc [OF r1 y l])
  then have "ring m' ((ct @ [c]) @ [y])" using ht by simp
  then have "ring m' (ct @ [c, y])" by simp
  from ring_rotate [OF this] have r': "ring m' (c # y # ct)" by simp
  have flc: "fib_link_child y x m = Inr (fn_set_p y (Some x) m')"
    using assms(1) rc by (simp add: fib_link_child_def Let_def m'_def)
  have "ring (fn_set_p y (Some x) m') (c # y # ct)"
    using r' by (rule ring_frame) simp
  moreover have "mods {} (insert y (set (c # ct))) m (fn_set_p y (Some x) m')"
    using hin by (auto simp: mods_def m'_def)
  ultimately show ?thesis using flc by blast
qed

lemma fib_link_mem:
  assumes "ring m (y # r0)" "r0 \<noteq> []"
    and "if cs = [] then fn_child (m x) = None
         else fn_child (m x) = Some (hd cs) \<and> ring m cs"
    and "set cs \<inter> set (y # r0) = {}"
  shows "\<exists>m'. fib_link y x m = Inr m' \<and> mods {x} (set (y # r0) \<union> set cs) m m'
           \<and> ring m' r0 \<and> fn_degree (m' x) = fn_degree (m x) + 1
           \<and> fn_child (m' x) = Some (hd (case cs of [] \<Rightarrow> [y] | c # ct \<Rightarrow> c # y # ct))
           \<and> ring m' (case cs of [] \<Rightarrow> [y] | c # ct \<Rightarrow> c # y # ct)"
proof -
  define m4 where "m4 = unlink_mem m y (hd r0) (last r0)"
  note u = fib_link_unlink [OF assms(1,2), folded m4_def]
  have same4: "fn_child (m4 a) = fn_child (m a)" "fn_degree (m4 a) = fn_degree (m a)" for a
    using u(4) by (simp_all add: mods_def)
  show ?thesis
  proof (cases cs)
    case Nil
    with assms(3) have "fn_child (m4 x) = None" by (simp add: same4)
    from fib_link_child_none [of m4 x y, OF this] obtain m5 where
      c: "fib_link_child y x m4 = Inr m5" "mods {x} {} m4 m5" "fn_child (m5 x) = Some y"
      "fn_degree (m5 x) = fn_degree (m4 x)"
      by blast
    define m6 where "m6 = fn_set_mark y False (fn_set_degree x (fn_degree (m5 x) + 1) m5)"
    have fl: "fib_link y x m = Inr m6" using u(1) c(1) by (simp add: m6_def)
    have m56: "mods {x} {} m5 m6" by (auto simp: mods_def m6_def)
    have m46: "mods {x} {} m4 m6" using mods_trans [OF c(2) m56] by simp
    have "mods {x} (set (y # r0) \<union> set cs) m m6"
      using mods_trans [OF u(4) m46] Nil by simp
    moreover have "ring m6 r0" using u(2) m46 by (rule ring_mods) simp
    moreover have "ring m6 [y]" using u(3) m46 by (rule ring_mods) simp
    moreover have "fn_degree (m6 x) = fn_degree (m x) + 1"
      using c(4) by (simp add: m6_def same4)
    moreover have "fn_child (m6 x) = Some y" using c(3) by (simp add: m6_def)
    ultimately show ?thesis using fl Nil by simp
  next
    case (Cons c ct)
    with assms(3) have ch: "fn_child (m x) = Some c" and rg: "ring m (c # ct)" by simp_all
    have ch4: "fn_child (m4 x) = Some c" using ch by (simp add: same4)
    have rg4: "ring m4 (c # ct)"
      using rg u(4) by (rule ring_mods) (use assms(4) Cons in auto)
    have y: "y \<notin> set (c # ct)" using assms(4) Cons by auto
    from fib_link_child_ring [of m4 x c ct y, OF ch4 rg4 y] obtain m5 where
      c: "fib_link_child y x m4 = Inr m5" "mods {} (insert y (set (c # ct))) m4 m5"
      "ring m5 (c # y # ct)"
      by blast
    define m6 where "m6 = fn_set_mark y False (fn_set_degree x (fn_degree (m5 x) + 1) m5)"
    have fl: "fib_link y x m = Inr m6" using u(1) c(1) by (simp add: m6_def)
    have m56: "mods {x} {} m5 m6" by (auto simp: mods_def m6_def)
    have m46: "mods {x} (insert y (set (c # ct))) m4 m6"
      using mods_trans [OF c(2) m56] by simp
    have "mods {x} (set (y # r0) \<union> set cs) m m6"
      by (rule mods_mono [OF mods_trans [OF u(4) m46]]) (use Cons in auto)
    moreover have "ring m6 r0"
      using u(2) m46 by (rule ring_mods) (use assms(1,4) Cons in \<open>auto simp: ring_def\<close>)
    moreover have "ring m6 (c # y # ct)" using c(3) m56 by (rule ring_mods) simp
    moreover have "fn_degree (m5 x) = fn_degree (m4 x)" using c(2) by (simp add: mods_def)
    then have "fn_degree (m6 x) = fn_degree (m x) + 1"
      by (simp add: m6_def same4)
    moreover have "fn_child (m5 x) = fn_child (m4 x)" using c(2) by (simp add: mods_def)
    then have "fn_child (m6 x) = Some c" using ch4 by (simp add: m6_def)
    ultimately show ?thesis using fl Cons by simp
  qed
qed

lemma link_simps [simp]:
  "faddr (link tp tc) = faddr tp" "fkey (link tp tc) = fkey tp"
  "length (kids (link tp tc)) = Suc (length (kids tp))"
  "set (kids (link tp tc)) = insert tc (set (kids tp))"
  "tkeys (link tp tc) = tkeys tp + tkeys tc"
  "set (tal (link tp tc)) = set (tal tp) \<union> set (tal tc)"
  "mset (tal (link tp tc)) = mset (tal tp) + mset (tal tc)"
  "map faddr (kids (link tp tc))
     = (case map faddr (kids tp) of [] \<Rightarrow> [faddr tc] | c # ct \<Rightarrow> c # faddr tc # ct)"
  by (cases tp; cases "kids tp"; auto simp: link_def)+

lemma mset_fal: "mset (fal G) = (\<Sum>t\<in>#mset G. mset (tal t))"
  by (induction G) simp_all

lemma fkeys_mset: "fkeys G = (\<Sum>t\<in>#mset G. tkeys t)"
  by (induction G) simp_all

lemma fal_perm: "mset G = mset G' \<Longrightarrow> mset (fal G) = mset (fal G')"
  by (simp add: mset_fal)

lemma fal_perm_distinct: "mset G = mset G' \<Longrightarrow> distinct (fal G) = distinct (fal G')"
  by (rule mset_eq_imp_distinct_iff) (rule fal_perm)

lemma fal_perm_set: "mset G = mset G' \<Longrightarrow> set (fal G) = set (fal G')"
  by (rule mset_eq_setD) (rule fal_perm)

lemma fkeys_perm: "mset G = mset G' \<Longrightarrow> fkeys G = fkeys G'"
  by (simp add: fkeys_mset)

lemma froots_perm: "froots m G r \<Longrightarrow> mset G = mset G' \<Longrightarrow> froots m G' r"
  using fal_perm_distinct [of G G'] mset_eq_setD [of G G']
  by (simp add: froots_def)

lemma tree_unique:
  assumes "distinct (fal G)" "t \<in> set G" "t' \<in> set G" "faddr t = faddr t'"
  shows "t = t'"
proof (rule ccontr)
  assume ne: "t \<noteq> t'"
  from assms(2) obtain G1 G2 where G: "G = G1 @ t # G2" by (auto dest: split_list)
  with assms(3) ne have "t' \<in> set G1 \<or> t' \<in> set G2" by auto
  then have "faddr t' \<in> set (fal G1) \<or> faddr t' \<in> set (fal G2)"
    by (auto dest: faddr_in_fal)
  moreover have "faddr t' \<in> set (tal t)" using assms(4) [symmetric] by simp
  ultimately show False using assms(1) G by auto
qed

lemma tal_ne [simp]: "tal t \<noteq> []"
  by (simp add: tal_eq)

lemma kids_in_tal: "c \<in> set (kids t) \<Longrightarrow> set (tal c) \<subseteq> set (fal (kids t))"
  by (rule tal_in_fal)

lemma fal_kids_sub: "set (fal (kids t)) \<subseteq> set (tal t)"
  by (auto simp: tal_eq)

lemma distinct_fal_kids: "distinct (tal t) \<Longrightarrow> distinct (fal (kids t))"
  by (simp add: tal_eq)

lemma distinct_tal_in: "distinct (fal G) \<Longrightarrow> t \<in> set G \<Longrightarrow> distinct (tal t)"
  by (auto dest!: split_list)

lemma tal_disjoint:
  assumes "distinct (fal G)" "t \<in> set G" "t' \<in> set G" "t \<noteq> t'"
  shows "set (tal t) \<inter> set (tal t') = {}"
proof -
  from assms(2) obtain G1 G2 where G: "G = G1 @ t # G2" by (auto dest: split_list)
  with assms(3,4) have "t' \<in> set G1 \<or> t' \<in> set G2" by auto
  then have "set (tal t') \<subseteq> set (fal G1) \<or> set (tal t') \<subseteq> set (fal G2)"
    by (auto dest: tal_in_fal)
  with assms(1) G show ?thesis by auto
qed

text \<open>
  \<^verbatim>\<open>fib_link(y, x)\<close> on two roots: the tree of \<open>y\<close> becomes a child of the tree of
  \<open>x\<close>, and the other trees and the ring of the other roots are as before.
\<close>

lemma fib_link_froots:
  fixes m :: "('k::linorder) fmem"
  assumes "froots m (tc # tp # G0) r" "fkey tp \<le> fkey tc"
  shows "\<exists>m' r'. fib_link (faddr tc) (faddr tp) m = Inr m'
           \<and> froots m' (link tp tc # G0) r'
           \<and> mods (set (fal (tc # tp # G0))) (set (fal (tc # tp # G0))) m m'"
proof -
  define G where "G = tc # tp # G0"
  define x where "x = faddr tp"
  define y where "y = faddr tc"
  define ca where "ca = map faddr (kids tp)"
  from assms(1) have T: "\<forall>t\<in>set G. ftrep m t" and H: "\<forall>t\<in>set G. theap t"
    and D: "distinct (fal G)" and sr: "set r = faddr ` set G" and rg: "ring m r"
    by (auto simp: froots_def G_def)
  have inG: "tc \<in> set G" "tp \<in> set G" "\<And>t. t \<in> set G0 \<Longrightarrow> t \<in> set G" by (simp_all add: G_def)
  have D': "distinct (tal tc @ tal tp @ fal G0)" using D by (simp add: G_def)
  have ne: "tp \<noteq> tc" using D' by auto
  have xy: "x \<noteq> y" using D' faddr_in_tal [of tc] faddr_in_tal [of tp]
    by (auto simp: x_def y_def simp del: faddr_in_tal)
  have dr: "distinct r" using rg by (simp add: ring_def)
  have "y \<in> set r" using sr by (simp add: G_def y_def)
  then obtain pre post where r: "r = pre @ y # post" by (auto dest: split_list)
  define r0 where "r0 = post @ pre"
  have rg0: "ring m (y # r0)" using ring_rotate [of m pre "y # post"] rg r by (simp add: r0_def)
  have sr0: "set r0 = set r - {y}" using dr r by (auto simp: r0_def)
  have "x \<in> set r" using sr by (simp add: G_def x_def)
  then have xr0: "x \<in> set r0" using sr0 xy by simp
  then have r0ne: "r0 \<noteq> []" by auto
  have sry: "set (y # r0) = set r" using r by (auto simp: r0_def)
  have roots_desc: "set r \<inter> set (fal (kids t)) = {}" if "t \<in> set G" for t
    using root_notin_desc [OF D that] sr by auto
  have ca_sub: "set ca \<subseteq> set (fal (kids tp))"
    by (auto simp: ca_def dest: faddr_in_fal)
  have ca_r: "set ca \<inter> set (y # r0) = {}"
    using ca_sub roots_desc [OF inG(2)] sry by auto
  have ftp: "ftrep m tp" using T inG by simp
  have kx: "fn_key (m x) = fkey tp" and dx: "fn_degree (m x) = of_nat (length (kids tp))"
    and kt: "\<forall>c\<in>set (kids tp). ftrep m c"
    using ftp by (cases tp; simp add: x_def)+
  have chx: "if ca = [] then fn_child (m x) = None
         else fn_child (m x) = Some (hd ca) \<and> ring m ca"
    using ftp by (cases tp) (auto simp: x_def ca_def hd_map)
  from fib_link_mem [OF rg0 r0ne chx ca_r] obtain m' where
    fl: "fib_link y x m = Inr m'" and md: "mods {x} (set (y # r0) \<union> set ca) m m'"
    and rg': "ring m' r0" and dg': "fn_degree (m' x) = fn_degree (m x) + 1"
    and ch': "fn_child (m' x) = Some (hd (case ca of [] \<Rightarrow> [y] | c # ct \<Rightarrow> c # y # ct))"
    and kr': "ring m' (case ca of [] \<Rightarrow> [y] | c # ct \<Rightarrow> c # y # ct)"
    by blast
  have md': "mods {x} (set r \<union> set ca) m m'"
    by (rule mods_mono [OF md]) (use sry in auto)
  have frame: "ftrep m' t"
    if "ftrep m t" "x \<notin> set (tal t)" "set r \<inter> set (fal (kids t)) = {}"
      "set ca \<inter> set (fal (kids t)) = {}" for t
    using that(1) md' by (rule ftrep_frame) (use that(2-4) in auto)
  have dtp: "distinct (tal tp)" using D' by simp
  have x_tp: "x \<notin> set (fal (kids tp))" using dtp by (simp add: tal_eq x_def)
  have other: "ftrep m' t" if t: "t \<in> set G" "t \<noteq> tp" for t
  proof (rule frame)
    show "ftrep m t" using T t by simp
    have dj: "set (tal t) \<inter> set (tal tp) = {}"
      by (rule tal_disjoint [OF D t(1) inG(2) t(2)])
    then show "x \<notin> set (tal t)" using faddr_in_tal [of tp]
      by (auto simp: x_def simp del: faddr_in_tal)
    show "set r \<inter> set (fal (kids t)) = {}" by (rule roots_desc [OF t(1)])
    show "set ca \<inter> set (fal (kids t)) = {}"
      using dj ca_sub fal_kids_sub [of tp] fal_kids_sub [of t] by auto
  qed
  have kid: "ftrep m' c" if c: "c \<in> set (kids tp)" for c
  proof (rule frame)
    show "ftrep m c" using kt c by simp
    have sub: "set (tal c) \<subseteq> set (fal (kids tp))" using c by (rule kids_in_tal)
    then show "x \<notin> set (tal c)" using x_tp by auto
    have "set (fal (kids c)) \<subseteq> set (fal (kids tp))" using sub fal_kids_sub [of c] by auto
    then show "set r \<inter> set (fal (kids c)) = {}" using roots_desc [OF inG(2)] by auto
    have "faddr c' \<notin> set (fal (kids c))" if "c' \<in> set (kids tp)" for c'
      by (rule root_notin_desc [OF distinct_fal_kids [OF dtp] c that])
    then show "set ca \<inter> set (fal (kids c)) = {}" by (auto simp: ca_def)
  qed
  have nk: "map faddr (kids (link tp tc)) = (case ca of [] \<Rightarrow> [y] | c # ct \<Rightarrow> c # y # ct)"
    unfolding ca_def y_def by simp
  have nkne: "kids (link tp tc) \<noteq> []" by (cases "kids tp") (simp_all add: link_def)
  have "of_nat (length (kids tp)) + (1::64 word) = of_nat (length (kids (link tp tc)))"
    by simp
  then have dg'': "fn_degree (m' x) = of_nat (length (kids (link tp tc)))"
    using dg' dx by simp
  have keys: "fn_key (m' a) = fn_key (m a)" for a using md by (simp add: mods_def)
  have "ftrep m' tc" using other [OF inG(1)] ne by simp
  then have allk: "\<forall>c\<in>set (kids (link tp tc)). ftrep m' c" using kid by simp
  have lk: "link tp tc = FNode x (fkey tp) (kids (link tp tc))"
    by (simp add: link_def x_def)
  have ch'': "fn_child (m' x) = Some (hd (map faddr (kids (link tp tc))))"
    using ch' by (simp only: nk)
  have kr'': "ring m' (map faddr (kids (link tp tc)))" using kr' by (simp only: nk)
  have hdm: "hd (map faddr (kids (link tp tc))) = faddr (hd (kids (link tp tc)))"
    using nkne by (rule hd_map)
  have "ftrep m' (FNode x (fkey tp) (kids (link tp tc)))"
    using keys kx dg'' ch'' kr'' allk nkne hdm by (simp del: link_simps)
  then have flink: "ftrep m' (link tp tc)" using lk by simp
  have "theap tp" "theap tc" using H inG by simp_all
  then have "theap (FNode x (fkey tp) (kids (link tp tc)))"
    using assms(2) by (cases tp) (auto simp: link_def split: list.splits)
  then have hlink: "theap (link tp tc)" using lk by simp
  have "mset (fal (link tp tc # G0)) = mset (fal G)" by (simp add: G_def)
  then have dl: "distinct (fal (link tp tc # G0))"
    using D mset_eq_imp_distinct_iff by blast
  have "y \<notin> faddr ` set G0"
    using D' faddr_in_tal [of tc] by (auto simp: y_def dest: faddr_in_fal simp del: faddr_in_tal)
  then have sr0': "set r0 = faddr ` set (link tp tc # G0)"
    using sr0 sr xy by (auto simp: G_def x_def y_def)
  have ne0: "t \<noteq> tp" if "t \<in> set G0" for t
    using that D' faddr_in_tal [of tp] by (auto dest: faddr_in_fal simp del: faddr_in_tal)
  have "froots m' (link tp tc # G0) r0"
    unfolding froots_def using flink hlink dl sr0' rg' H other ne0 inG(3)
    by (auto simp del: fal_simps)
  moreover have "mods (set (fal G)) (set (fal G)) m m'"
  proof (rule mods_mono [OF md'])
    show "{x} \<subseteq> set (fal G)" using faddr_in_fal [OF inG(2)] by (simp add: x_def)
    have "set r \<subseteq> set (fal G)" using sr by (auto dest: faddr_in_fal)
    moreover have "set ca \<subseteq> set (fal G)"
      using ca_sub fal_kids_sub [of tp] tal_in_fal [OF inG(2)] by auto
    ultimately show "set r \<union> set ca \<subseteq> set (fal G)" by simp
  qed
  ultimately show ?thesis using fl unfolding G_def x_def y_def by blast
qed

lemma ftrep_key: "ftrep m t \<Longrightarrow> fn_key (m (faddr t)) = fkey t"
  by (cases t) simp

lemma ftrep_degree: "ftrep m t \<Longrightarrow> fn_degree (m (faddr t)) = of_nat (length (kids t))"
  by (cases t) simp

lemma hd_notin_rest: "distinct (fal (t # G)) \<Longrightarrow> t \<notin> set G"
  using tal_in_fal [of t G] by (cases "tal t") auto

lemma cinv_done:
  fixes m :: "('k::linorder) fmem"
  assumes "cinv m A (x # todo) G" "tx \<in> set G" "faddr tx = x" "length (kids tx) = i"
    and "i < length A" "A ! i = None"
  shows "cinv m (A[i := Some x]) todo G"
proof -
  from assms(1) have F: "\<exists>r. froots m G r" and d: "distinct (x # todo)"
    and sub: "set (x # todo) \<subseteq> faddr ` set G"
    and W: "\<And>j y. j < length A \<Longrightarrow> A ! j = Some y \<Longrightarrow>
           y \<notin> set (x # todo) \<and> (\<exists>t\<in>set G. faddr t = y \<and> length (kids t) = j)"
    and C: "\<And>t. t \<in> set G \<Longrightarrow> faddr t \<in> set (x # todo) \<or> (\<exists>j<length A. A ! j = Some (faddr t))"
    and P: "\<forall>t\<in>set G. length (kids t) + length G \<le> length A" and L: "length A < 2 ^ 64"
    unfolding cinv_def by blast+
  have W': "y \<notin> set todo \<and> (\<exists>t\<in>set G. faddr t = y \<and> length (kids t) = j)"
    if "j < length (A[i := Some x])" "A[i := Some x] ! j = Some y" for j y
  proof (cases "j = i")
    case True
    with that assms(5) have "y = x" by simp
    with d assms(2,3,4) True show ?thesis by auto
  next
    case False
    with that have "j < length A" "A ! j = Some y" by simp_all
    from W [OF this] show ?thesis by auto
  qed
  have C': "faddr t \<in> set todo \<or> (\<exists>j<length (A[i := Some x]). A[i := Some x] ! j = Some (faddr t))"
    if "t \<in> set G" for t
  proof -
    from C [OF that] consider "faddr t = x" | "faddr t \<in> set todo"
      | j where "j < length A" "A ! j = Some (faddr t)" by auto
    then show ?thesis
    proof cases
      case 1
      then have "A[i := Some x] ! i = Some (faddr t)" using assms(5) by simp
      then show ?thesis using assms(5) by auto
    next
      case 2
      then show ?thesis by simp
    next
      case 3
      with assms(6) have "j \<noteq> i" by auto
      with 3 have "A[i := Some x] ! j = Some (faddr t)" by simp
      with 3(1) show ?thesis by auto
    qed
  qed
  show ?thesis
    unfolding cinv_def using F d sub W' C' P L by auto
qed

lemma cinv_link:
  fixes m :: "('k::linorder) fmem"
  assumes "cinv m A (x # todo) G" "tx \<in> set G" "faddr tx = x" "length (kids tx) = i"
    and "i < length A" "A ! i = Some y" "ty \<in> set G" "faddr ty = y"
    and "(tp = tx \<and> tc = ty) \<or> (tp = ty \<and> tc = tx)"
    and "mset G = mset (tc # tp # G0)" "froots m1 (link tp tc # G0) r1"
  shows "cinv m1 (A[i := None]) (faddr tp # todo) (link tp tc # G0)"
proof -
  from assms(1) obtain r where F: "froots m G r" and d: "distinct (x # todo)"
    and sub: "set (x # todo) \<subseteq> faddr ` set G"
    and W: "\<And>j y. j < length A \<Longrightarrow> A ! j = Some y \<Longrightarrow>
           y \<notin> set (x # todo) \<and> (\<exists>t\<in>set G. faddr t = y \<and> length (kids t) = j)"
    and C: "\<And>t. t \<in> set G \<Longrightarrow> faddr t \<in> set (x # todo) \<or> (\<exists>j<length A. A ! j = Some (faddr t))"
    and P: "\<And>t. t \<in> set G \<Longrightarrow> length (kids t) + length G \<le> length A"
    and L: "length A < 2 ^ 64"
    unfolding cinv_def by blast
  have D: "distinct (fal G)" using F by (simp add: froots_def)
  have uniq: "t = t'" if "t \<in> set G" "t' \<in> set G" "faddr t = faddr t'" for t t'
    using D that by (rule tree_unique)
  have setG: "set G = insert tc (insert tp (set G0))"
    using mset_eq_setD [OF assms(10)] by simp
  have lenG: "length G = Suc (Suc (length G0))"
    using mset_eq_length [OF assms(10)] by simp
  have D0: "distinct (fal (tc # tp # G0))"
    using D fal_perm_distinct [OF assms(10)] by simp
  have tc0: "tc \<notin> set (tp # G0)" using D0 by (rule hd_notin_rest)
  have "distinct (fal (tp # G0))" using D0 by simp
  then have tp0: "tp \<notin> set G0" by (rule hd_notin_rest)
  from W [OF assms(5,6)] obtain t0 where yx: "y \<notin> set (x # todo)"
    and t0: "t0 \<in> set G" "faddr t0 = y" "length (kids t0) = i" by auto
  have "ty = t0" using uniq [OF assms(7) t0(1)] assms(8) t0(2) by simp
  then have kty: "length (kids ty) = i" using t0(3) by simp
  have ktp: "length (kids tp) = i" using assms(9,4) kty by auto
  have ap: "faddr tp = x \<or> faddr tp = y" using assms(9,3,8) by auto
  have ac: "faddr tc = x \<or> faddr tc = y" using assms(9,3,8) by auto
  have c2: "distinct (faddr tp # todo)" using ap d yx by auto
  have inG0: "t \<in> set G0" if "t \<in> set G" "faddr t \<noteq> x" "faddr t \<noteq> y" for t
    using that setG ap ac by auto
  have c3: "set (faddr tp # todo) \<subseteq> faddr ` set (link tp tc # G0)"
  proof
    fix a assume "a \<in> set (faddr tp # todo)"
    then consider "a = faddr tp" | "a \<in> set todo" by auto
    then show "a \<in> faddr ` set (link tp tc # G0)"
    proof cases
      case 1
      then show ?thesis by simp
    next
      case 2
      with sub obtain t where t: "t \<in> set G" "a = faddr t" by auto
      with 2 d yx have "faddr t \<noteq> x" "faddr t \<noteq> y" by auto
      from inG0 [OF t(1) this] t(2) show ?thesis by simp
    qed
  qed
  have c4: "y' \<notin> set (faddr tp # todo)
      \<and> (\<exists>t\<in>set (link tp tc # G0). faddr t = y' \<and> length (kids t) = j)"
    if "j < length (A[i := None])" "A[i := None] ! j = Some y'" for j y'
  proof -
    from that assms(5) have ji: "j \<noteq> i" by (cases "j = i") auto
    with that have j: "j < length A" "A ! j = Some y'" by simp_all
    from W [OF j] obtain t where y': "y' \<notin> set (x # todo)"
      and t: "t \<in> set G" "faddr t = y'" "length (kids t) = j" by auto
    have "y' \<noteq> y"
    proof
      assume "y' = y"
      with t assms(8) have "t = ty" using uniq [OF t(1) assms(7)] by simp
      with t(3) kty ji show False by simp
    qed
    moreover from y' have "y' \<noteq> x" by auto
    ultimately have "t \<in> set G0" using inG0 [OF t(1)] t(2) by simp
    with t y' ap \<open>y' \<noteq> y\<close> show ?thesis by auto
  qed
  have c5: "faddr t \<in> set (faddr tp # todo)
      \<or> (\<exists>j<length (A[i := None]). A[i := None] ! j = Some (faddr t))"
    if "t \<in> set (link tp tc # G0)" for t
  proof (cases "t = link tp tc")
    case True
    then show ?thesis by simp
  next
    case False
    with that have t0: "t \<in> set G0" by simp
    then have tG: "t \<in> set G" using setG by simp
    have nx: "faddr t \<noteq> x"
    proof
      assume "faddr t = x"
      then have "t = tx" using uniq [OF tG assms(2)] assms(3) by simp
      with t0 tc0 tp0 assms(9) show False by auto
    qed
    have ny: "faddr t \<noteq> y"
    proof
      assume "faddr t = y"
      then have "t = ty" using uniq [OF tG assms(7)] assms(8) by simp
      with t0 tc0 tp0 assms(9) show False by auto
    qed
    from C [OF tG] nx consider "faddr t \<in> set todo"
      | j where "j < length A" "A ! j = Some (faddr t)" by auto
    then show ?thesis
    proof cases
      case 1
      then show ?thesis by simp
    next
      case 2
      with assms(6) ny have "j \<noteq> i" by auto
      with 2 have "A[i := None] ! j = Some (faddr t)" by simp
      with 2(1) show ?thesis by auto
    qed
  qed
  have tpG: "tp \<in> set G" using setG by simp
  have c6: "length (kids t) + length (link tp tc # G0) \<le> length (A[i := None])"
    if "t \<in> set (link tp tc # G0)" for t
  proof (cases "t = link tp tc")
    case True
    with P [OF tpG] lenG show ?thesis by simp
  next
    case False
    with that have "t \<in> set G" using setG by simp
    from P [OF this] lenG show ?thesis by simp
  qed
  show ?thesis
    unfolding cinv_def
  proof (intro conjI)
    show "\<exists>r. froots m1 (link tp tc # G0) r" using assms(11) by blast
    show "distinct (faddr tp # todo)" by (rule c2)
    show "set (faddr tp # todo) \<subseteq> faddr ` set (link tp tc # G0)" by (rule c3)
    show "\<forall>j<length (A[i := None]). \<forall>y. A[i := None] ! j = Some y \<longrightarrow>
        y \<notin> set (faddr tp # todo)
        \<and> (\<exists>t\<in>set (link tp tc # G0). faddr t = y \<and> length (kids t) = j)"
      using c4 by blast
    show "\<forall>t\<in>set (link tp tc # G0). faddr t \<in> set (faddr tp # todo)
        \<or> (\<exists>j<length (A[i := None]). A[i := None] ! j = Some (faddr t))"
      using c5 by blast
    show "\<forall>t\<in>set (link tp tc # G0).
        length (kids t) + length (link tp tc # G0) \<le> length (A[i := None])"
      using c6 by blast
    show "length (A[i := None]) < 2 ^ 64" using L by simp
  qed
qed

lemma ex_perm2:
  assumes "t \<in> set G" "t' \<in> set G" "t \<noteq> t'"
  shows "\<exists>G0. mset G = mset (t # t' # G0)"
proof -
  from assms(1) obtain G1 G2 where G: "G = G1 @ t # G2" by (auto dest: split_list)
  with assms(2,3) consider "t' \<in> set G1" | "t' \<in> set G2" by auto
  then show ?thesis
  proof cases
    case 1
    then obtain B C where "G1 = B @ t' # C" by (auto dest: split_list)
    with G have "mset G = mset (t # t' # (B @ C @ G2))" by simp
    then show ?thesis by blast
  next
    case 2
    then obtain B C where "G2 = B @ t' # C" by (auto dest: split_list)
    with G have "mset G = mset (t # t' # (G1 @ B @ C))" by simp
    then show ?thesis by blast
  qed
qed

text \<open>
  The \<^verbatim>\<open>while\<close> loop of \<^verbatim>\<open>consolidate\<close> keeps the invariant and returns: every round
  removes a root.
\<close>

lemma link_loop_correct:
  fixes m :: "('k::linorder) fmem"
  assumes "cinv m A (x # todo) G" "tx \<in> set G" "faddr tx = x"
    and "d = of_nat (length (kids tx))" "length G \<le> n"
  shows "\<exists>m' A' x' d' G'. consolidate_link_loop n m A x d = Some (Inr (m', A', x', d'))
           \<and> cinv m' (A'[unat d' := Some x']) todo G' \<and> fkeys G' = fkeys G
           \<and> set (fal G') = set (fal G) \<and> length G' \<le> length G
           \<and> (\<forall>a. fn_key (m' a) = fn_key (m a))"
  using assms
proof (induction n arbitrary: m A x d G tx)
  case 0
  then show ?case by simp
next
  case (Suc n)
  define i where "i = length (kids tx)"
  from Suc.prems(1) obtain r where F: "froots m G r"
    and W: "\<And>j y. j < length A \<Longrightarrow> A ! j = Some y \<Longrightarrow>
           y \<notin> set (x # todo) \<and> (\<exists>t\<in>set G. faddr t = y \<and> length (kids t) = j)"
    and P: "\<And>t. t \<in> set G \<Longrightarrow> length (kids t) + length G \<le> length A"
    and L: "length A < 2 ^ 64"
    unfolding cinv_def by blast
  have T: "\<And>t. t \<in> set G \<Longrightarrow> ftrep m t" using F by (simp add: froots_def)
  have "0 < length G" using Suc.prems(2) by (cases G) auto
  with P [OF Suc.prems(2)] have iA: "i < length A" unfolding i_def by linarith
  then have "i < 2 ^ LENGTH(64)" using L by simp
  then have ud: "unat d = i"
    unfolding Suc.prems(4) i_def [symmetric] by (simp add: unat_of_nat)
  show ?case
  proof (cases "A ! i")
    case None
    have "consolidate_link_loop (Suc n) m A x d = Some (Inr (m, A, x, d))"
      using iA None by (simp add: ud)
    moreover have "cinv m (A[unat d := Some x]) todo G"
      unfolding ud using Suc.prems(1,2,3) i_def [symmetric] iA None by (rule cinv_done)
    ultimately show ?thesis by auto
  next
    case (Some y)
    from W [OF iA Some] obtain ty where yx: "y \<notin> set (x # todo)"
      and ty: "ty \<in> set G" "faddr ty = y" "length (kids ty) = i" by auto
    have xy: "x \<noteq> y" using yx by auto
    then have txy: "tx \<noteq> ty" using Suc.prems(3) ty(2) by auto
    have kx: "fn_key (m x) = fkey tx" using ftrep_key [OF T [OF Suc.prems(2)]] Suc.prems(3) by simp
    have ky: "fn_key (m y) = fkey ty" using ftrep_key [OF T [OF ty(1)]] ty(2) by simp
    define tp where "tp = (if fkey ty < fkey tx then ty else tx)"
    define tc where "tc = (if fkey ty < fkey tx then tx else ty)"
    have pc: "(tp = tx \<and> tc = ty) \<or> (tp = ty \<and> tc = tx)" by (simp add: tp_def tc_def)
    have le: "fkey tp \<le> fkey tc" by (auto simp: tp_def tc_def)
    have inG: "tp \<in> set G" "tc \<in> set G" "tc \<noteq> tp"
      using Suc.prems(2) ty(1) txy by (auto simp: tp_def tc_def)
    from ex_perm2 [OF inG(2,1,3)] obtain G0 where G0: "mset G = mset (tc # tp # G0)" by blast
    have F0: "froots m (tc # tp # G0) r" using F G0 by (rule froots_perm)
    from fib_link_froots [OF F0 le] obtain m1 r1 where
      fl: "fib_link (faddr tc) (faddr tp) m = Inr m1"
      and F1: "froots m1 (link tp tc # G0) r1"
      and md: "mods (set (fal (tc # tp # G0))) (set (fal (tc # tp # G0))) m m1"
      by blast
    have ktp: "length (kids tp) = i" using ty(3) by (simp add: tp_def i_def)
    have step: "consolidate_link_loop (Suc n) m A x d
        = consolidate_link_loop n m1 (A[i := None]) (faddr tp) (d + 1)"
    proof (cases "fkey ty < fkey tx")
      case True
      then have "tp = ty" "tc = tx" by (simp_all add: tp_def tc_def)
      with fl show ?thesis using iA Some True Suc.prems(3) ty(2)
        by (simp add: ud kx ky)
    next
      case False
      then have "tp = tx" "tc = ty" by (simp_all add: tp_def tc_def)
      with fl show ?thesis using iA Some False Suc.prems(3) ty(2)
        by (simp add: ud kx ky)
    qed
    have ci: "cinv m1 (A[i := None]) (faddr tp # todo) (link tp tc # G0)"
      using Suc.prems(1,2,3) i_def [symmetric] iA Some ty(1,2) pc G0 F1 by (rule cinv_link)
    have a2: "link tp tc \<in> set (link tp tc # G0)" by simp
    have a3: "faddr (link tp tc) = faddr tp" by simp
    have a4: "d + 1 = of_nat (length (kids (link tp tc)))"
      by (simp add: Suc.prems(4) ktp i_def)
    have lenG: "length G = Suc (Suc (length G0))"
      using mset_eq_length [OF G0] by simp
    have a5: "length (link tp tc # G0) \<le> n" using Suc.prems(5) lenG by simp
    from Suc.IH [OF ci a2 a3 a4 a5] obtain m' A' x' d' G' where
      r: "consolidate_link_loop n m1 (A[i := None]) (faddr tp) (d + 1)
           = Some (Inr (m', A', x', d'))"
      "cinv m' (A'[unat d' := Some x']) todo G'" "fkeys G' = fkeys (link tp tc # G0)"
      "set (fal G') = set (fal (link tp tc # G0))" "length G' \<le> length (link tp tc # G0)"
      "\<forall>a. fn_key (m' a) = fn_key (m1 a)"
      by blast
    have "fkeys G' = fkeys G" using r(3) fkeys_perm [OF G0] by (simp add: ac_simps)
    moreover have "set (fal G') = set (fal G)"
      using r(4) fal_perm_set [OF G0] by auto
    moreover have "length G' \<le> length G" using r(5) lenG by simp
    moreover have "\<forall>a. fn_key (m' a) = fn_key (m a)"
      using r(6) md by (simp add: mods_def)
    ultimately show ?thesis using step r(1,2) by auto
  qed
qed

lemma consolidate_for_correct:
  fixes m :: "('k::linorder) fmem"
  assumes "cinv m A todo G" "length G \<le> n"
  shows "\<exists>m' A' G'. consolidate_for n m A todo = Some (Inr (m', A'))
           \<and> cinv m' A' [] G' \<and> fkeys G' = fkeys G \<and> set (fal G') = set (fal G)
           \<and> (\<forall>a. fn_key (m' a) = fn_key (m a))"
  using assms
proof (induction todo arbitrary: m A G)
  case Nil
  then show ?case by auto
next
  case (Cons x todo)
  from Cons.prems(1) have "x \<in> faddr ` set G" and F: "\<exists>r. froots m G r"
    by (auto simp: cinv_def)
  then obtain tx where tx: "tx \<in> set G" "faddr tx = x" by auto
  have "ftrep m tx" using F tx(1) by (auto simp: froots_def)
  from ftrep_degree [OF this] have d: "fn_degree (m x) = of_nat (length (kids tx))"
    using tx(2) by simp
  from link_loop_correct [OF Cons.prems(1) tx d Cons.prems(2)] obtain m1 A1 x1 d1 G1 where
    l: "consolidate_link_loop n m A x (fn_degree (m x)) = Some (Inr (m1, A1, x1, d1))"
    "cinv m1 (A1[unat d1 := Some x1]) todo G1" "fkeys G1 = fkeys G"
    "set (fal G1) = set (fal G)" "length G1 \<le> length G" "\<forall>a. fn_key (m1 a) = fn_key (m a)"
    by blast
  have "length G1 \<le> n" using l(5) Cons.prems(2) by simp
  from Cons.IH [OF l(2) this] obtain m' A' G' where
    r: "consolidate_for n m1 (A1[unat d1 := Some x1]) todo = Some (Inr (m', A'))"
    "cinv m' A' [] G'" "fkeys G' = fkeys G1" "set (fal G') = set (fal G1)"
    "\<forall>a. fn_key (m' a) = fn_key (m1 a)"
    by blast
  have "consolidate_for n m A (x # todo) = Some (Inr (m', A'))" using l(1) r(1) by simp
  moreover have "fkeys G' = fkeys G" "set (fal G') = set (fal G)"
    "\<forall>a. fn_key (m' a) = fn_key (m a)"
    using l r by simp_all
  ultimately show ?case using r(2) by blast
qed

lemma set_somes: "set (somes A) = {y. Some y \<in> set A}"
  by (induction A rule: somes.induct) auto

lemma distinct_somes:
  assumes "\<And>i j y. i < length A \<Longrightarrow> j < length A \<Longrightarrow> A ! i = Some y \<Longrightarrow> A ! j = Some y
             \<Longrightarrow> i = j"
  shows "distinct (somes A)"
  using assms
proof (induction A rule: somes.induct)
  case 1
  then show ?case by simp
next
  case (2 xs)
  have "i = j" if "i < length xs" "j < length xs" "xs ! i = Some y" "xs ! j = Some y" for i j y
    using "2.prems" [of "Suc i" "Suc j" y] that by simp
  from "2.IH" [OF this] show ?case by simp
next
  case (3 x xs)
  have "i = j" if "i < length xs" "j < length xs" "xs ! i = Some y" "xs ! j = Some y" for i j y
    using "3.prems" [of "Suc i" "Suc j" y] that by simp
  from "3.IH" [OF this] have "distinct (somes xs)" by simp
  moreover have "x \<notin> set (somes xs)"
  proof
    assume "x \<in> set (somes xs)"
    then have "Some x \<in> set xs" by (simp add: set_somes)
    then obtain j where "j < length xs" "xs ! j = Some x" by (auto simp: in_set_conv_nth)
    with "3.prems" [of 0 "Suc j" x] show False by simp
  qed
  ultimately show ?case by simp
qed

lemma ring_left_in:
  assumes "ring m r" "x \<in> set r"
  shows "\<exists>l\<in>set r. fn_left (m x) = Some l"
proof -
  from assms(2) obtain pre post where r: "r = pre @ x # post" by (auto dest: split_list)
  have "ring m ((x # post) @ pre)" using ring_rotate [of m pre "x # post"] assms(1) r by simp
  then have "ring m (x # post @ pre)" by simp
  from ring_left_hd [OF this] have "fn_left (m x) = Some (last (x # post @ pre))" .
  moreover have "last (x # post @ pre) \<in> set (x # post @ pre)" by (rule last_in_set) simp
  then have "last (x # post @ pre) \<in> set r" using r by auto
  ultimately show ?thesis by blast
qed

text \<open>
  The last loop of \<^verbatim>\<open>consolidate\<close> builds the ring of roots anew from the vector, and
  \<^verbatim>\<open>min\<close> ends at a root with a least key.
\<close>

lemma rebuild_nonempty:
  fixes m :: "('k::linorder) fmem"
  assumes "ring m (h # t)" "distinct (somes As)" "set (somes As) \<inter> set (h # t) = {}"
    and "\<forall>a\<in>set (h # t). fn_key (m h) \<le> fn_key (m a)"
  shows "\<exists>m' D. consolidate_rebuild As (Some h) m = Inr (Some (hd D), m') \<and> ring m' D
           \<and> set D = set (h # t) \<union> set (somes As)
           \<and> (\<forall>a\<in>set D. fn_key (m' (hd D)) \<le> fn_key (m' a))
           \<and> mods {} (set (h # t) \<union> set (somes As)) m m'"
  using assms
proof (induction As arbitrary: m h t rule: somes.induct)
  case 1
  then show ?case by (intro exI [of _ m] exI [of _ "h # t"]) simp
next
  case (2 xs)
  from "2.IH" [of m h t] "2.prems" show ?case by simp
next
  case (3 x xs)
  have x: "x \<notin> set (h # t)" using "3.prems"(3) by auto
  from insert_node_ring [OF "3.prems"(1) x] obtain m1 where
    i: "insert_node (Some x) (Some h) m
           = Inr (if fn_key (m x) < fn_key (m h) then Some x else Some h, m1)"
    "ring m1 (h # t @ [x])" "mods {} (insert x (set (h # t))) m m1"
    by blast
  define D1 where "D1 = (if fn_key (m x) < fn_key (m h) then x # h # t else h # t @ [x])"
  define h1 where "h1 = hd D1"
  define t1 where "t1 = tl D1"
  have D1: "D1 = h1 # t1" by (simp add: h1_def t1_def D1_def)
  have sD1: "set D1 = insert x (set (h # t))" by (auto simp: D1_def)
  have keys: "fn_key (m1 a) = fn_key (m a)" for a using i(3) by (simp add: mods_def)
  have i': "insert_node (Some x) (Some h) m = Inr (Some h1, m1)"
    using i(1) by (simp add: h1_def D1_def)
  have b1: "ring m1 (h1 # t1)"
    using i(2) ring_rotate [of m1 "h # t" "[x]"] by (simp add: D1 [symmetric] D1_def)
  have b2: "distinct (somes xs)" using "3.prems"(2) by simp
  have b3: "set (somes xs) \<inter> set (h1 # t1) = {}"
    using "3.prems"(2,3) by (simp add: D1 [symmetric] sD1)
  have b4: "\<forall>a\<in>set (h1 # t1). fn_key (m1 h1) \<le> fn_key (m1 a)"
    unfolding D1 [symmetric] sD1 using "3.prems"(4)
    by (auto simp: keys h1_def D1_def)
  from "3.IH" [OF b1 b2 b3 b4] obtain m' D where
    r: "consolidate_rebuild xs (Some h1) m1 = Inr (Some (hd D), m')" "ring m' D"
    "set D = set (h1 # t1) \<union> set (somes xs)"
    "\<forall>a\<in>set D. fn_key (m' (hd D)) \<le> fn_key (m' a)"
    "mods {} (set (h1 # t1) \<union> set (somes xs)) m1 m'"
    by blast
  have "consolidate_rebuild (Some x # xs) (Some h) m = Inr (Some (hd D), m')"
    using i' r(1) by simp
  moreover have "set D = set (h # t) \<union> set (somes (Some x # xs))"
    using r(3) by (simp add: D1 [symmetric] sD1)
  moreover have s1: "set (h1 # t1) = insert x (set (h # t))" using sD1 D1 by simp
  have "mods {} (set (h # t) \<union> set (somes (Some x # xs))) m m'"
    by (rule mods_mono [OF mods_trans [OF i(3) r(5)]]) (use s1 in auto)
  ultimately show ?case using r(2,4) by blast
qed

lemma rebuild_empty:
  fixes m :: "('k::linorder) fmem"
  assumes "ring m r" "set (somes As) = set r" "distinct (somes As)"
  shows "\<exists>m' D. consolidate_rebuild As None m = Inr (Some (hd D), m') \<and> ring m' D
           \<and> set D = set r \<and> (\<forall>a\<in>set D. fn_key (m' (hd D)) \<le> fn_key (m' a))
           \<and> mods {} (set r) m m'"
  using assms
proof (induction As arbitrary: rule: somes.induct)
  case 1
  then show ?case by (simp add: ring_def)
next
  case (2 xs)
  then show ?case by simp
next
  case (3 x xs)
  have "x \<in> set r" using "3.prems"(2) by auto
  from ring_left_in [OF "3.prems"(1) this] obtain l where l: "l \<in> set r" "fn_left (m x) = Some l"
    by blast
  from insert_node_first [of m x l, OF l(2)] obtain m1 where
    i: "insert_node (Some x) None m = Inr (Some x, m1)" "ring m1 [x]" "mods {} {l, x} m m1"
    by blast
  have b2: "distinct (somes xs)" using "3.prems"(3) by simp
  have b3: "set (somes xs) \<inter> set [x] = {}" using "3.prems"(3) by simp
  have b4: "\<forall>a\<in>set [x]. fn_key (m1 x) \<le> fn_key (m1 a)" by simp
  from rebuild_nonempty [OF i(2) b2 b3 b4] obtain m' D where
    r: "consolidate_rebuild xs (Some x) m1 = Inr (Some (hd D), m')" "ring m' D"
    "set D = set [x] \<union> set (somes xs)"
    "\<forall>a\<in>set D. fn_key (m' (hd D)) \<le> fn_key (m' a)"
    "mods {} (set [x] \<union> set (somes xs)) m1 m'"
    by blast
  have "consolidate_rebuild (Some x # xs) None m = Inr (Some (hd D), m')"
    using i(1) r(1) by simp
  moreover have "set D = set r" using r(3) "3.prems"(2) by auto
  moreover have "mods {} (set r) m m'"
    by (rule mods_mono [OF mods_trans [OF i(3) r(5)]])
       (use l(1) \<open>x \<in> set r\<close> "3.prems"(2) in auto)
  ultimately show ?case using r(2,4) by blast
qed

lemma distinct_roots: "distinct (fal G) \<Longrightarrow> distinct (map faddr G)"
proof (induction G)
  case (Cons t G)
  have "faddr t \<notin> faddr ` set G"
  proof
    assume "faddr t \<in> faddr ` set G"
    then obtain t' where "t' \<in> set G" "faddr t = faddr t'" by auto
    then have "faddr t \<in> set (fal G)" using faddr_in_fal [of t' G] by simp
    moreover have "faddr t \<in> set (tal t)" by simp
    ultimately show False using Cons.prems by (auto simp del: faddr_in_tal)
  qed
  with Cons show ?case by simp
qed simp

lemma froots_length: "froots m G r \<Longrightarrow> r \<noteq> [] \<Longrightarrow> length r = length G"
proof -
  assume a: "froots m G r" "r \<noteq> []"
  then have "distinct r" "distinct (map faddr G)" "set r = set (map faddr G)"
    by (auto simp: froots_def ring_def dest: distinct_roots)
  then have "length r = length (map faddr G)"
    by (metis distinct_card)
  then show ?thesis by simp
qed

lemma deg_plus_len:
  assumes "t \<in> set G"
  shows "length (kids t) + length G \<le> size (fkeys G)"
proof -
  from assms obtain G1 G2 where G: "G = G1 @ t # G2" by (auto dest: split_list)
  have "Suc (length (kids t)) \<le> size (tkeys t)"
    using length_le_size_fkeys [of "kids t"] by (simp add: tkeys_eq)
  with length_le_size_fkeys [of G1] length_le_size_fkeys [of G2] G show ?thesis
    by simp
qed

text \<open>
  \<^verbatim>\<open>consolidate()\<close> returns, on the same nodes and keys, a well-formed forest.
\<close>

lemma consolidate_correct:
  fixes m :: "('k::linorder) fmem"
  assumes "froots m G r" "mn = (if r = [] then None else Some (hd r))"
    and "size (fkeys G) < 2 ^ 64" "size (fkeys G) < n"
  shows "\<exists>mn' m' G' r'. consolidate n mn m = Some (Inr (mn', m')) \<and> froots m' G' r'
           \<and> mn' = (if r' = [] then None else Some (hd r'))
           \<and> (r' \<noteq> [] \<longrightarrow> (\<forall>t\<in>set G'. fn_key (m' (hd r')) \<le> fkey t))
           \<and> fkeys G' = fkeys G \<and> set (fal G') = set (fal G)
           \<and> (\<forall>a. fn_key (m' a) = fn_key (m a))"
proof (cases "r = []")
  case True
  with assms(1) have G: "G = []" by (simp add: froots_Nil)
  have "consolidate n mn m = Some (Inr (None, m))"
    using assms(2) True by (simp add: consolidate_def)
  then show ?thesis using assms(1) True G
    by (intro exI [of _ None] exI [of _ m] exI [of _ "[]"]) simp
next
  case False
  from assms(1) False have rg: "ring m r" and D: "distinct (fal G)"
    and sr: "set r = faddr ` set G" and T: "\<And>t. t \<in> set G \<Longrightarrow> ftrep m t"
    by (auto simp: froots_def)
  have lr: "length r = length G" using assms(1) False by (rule froots_length)
  have lG: "length G \<le> size (fkeys G)" by (rule length_le_size_fkeys)
  define N where "N = size (fkeys G)"
  have N: "N < 2 ^ 64" "N < n" "length G \<le> N" using assms(3,4) lG by (simp_all add: N_def)
  define deg where "deg = (\<lambda>a. fn_degree (m a))"
  define Dg where "Dg = foldl max 0 (map deg r)"
  have r_eq: "r = [] @ hd r # tl r" using False by simp
  have "length (tl r) < n" using lr N by simp
  from collect_correct [OF rg r_eq this, of 0 0]
  have col: "consolidate_collect n m (Some (hd r)) (Some (hd r)) 0 0 []
      = Some (Inr (Dg, of_nat (length r), r))"
    using False by (simp add: Dg_def deg_def)
  have degt: "deg (faddr t) = of_nat (length (kids t))" if "t \<in> set G" for t
    using ftrep_degree [OF T [OF that]] by (simp add: deg_def)
  have kl: "length (kids t) + length G \<le> N" if "t \<in> set G" for t
    using deg_plus_len [OF that] by (simp add: N_def)
  have ukt: "unat (of_nat (length (kids t)) :: 64 word) = length (kids t)" if "t \<in> set G" for t
    using kl [OF that] N(1) by (simp add: unat_of_nat)
  have uD: "unat Dg + length G \<le> N"
  proof -
    from foldl_max_in [of 0 "map deg r"] consider "Dg = 0" | "Dg \<in> set (map deg r)"
      by (auto simp: Dg_def)
    then show ?thesis
    proof cases
      case 1
      then show ?thesis using N(3) by simp
    next
      case 2
      then obtain t where t: "t \<in> set G" "Dg = deg (faddr t)" using sr by auto
      then have "unat Dg = length (kids t)" using degt [OF t(1)] ukt [OF t(1)] by simp
      then show ?thesis using kl [OF t(1)] by simp
    qed
  qed
  have ulr: "unat (of_nat (length r) :: 64 word) = length r"
    using lr N by (simp add: unat_of_nat)
  have "unat Dg + unat (of_nat (length r) :: 64 word) < 2 ^ LENGTH(64)"
    using uD N(1) lr ulr by simp
  then have "unat (Dg + of_nat (length r)) = unat Dg + unat (of_nat (length r) :: 64 word)"
    by (simp only: unat_add_lem)
  then have uA: "unat (Dg + of_nat (length r)) = unat Dg + length r" using ulr by simp
  define A where "A = replicate (unat Dg + length r) (None :: ptr)"
  have lkD: "length (kids t) \<le> unat Dg" if "t \<in> set G" for t
  proof -
    have "faddr t \<in> set r" using sr that by simp
    then have "deg (faddr t) \<le> Dg"
      using foldl_max_ge [of 0 "map deg r"] by (simp add: Dg_def)
    then have "unat (deg (faddr t)) \<le> unat Dg" by (simp add: word_le_nat_alt)
    then show ?thesis using degt [OF that] ukt [OF that] by simp
  qed
  have ci: "cinv m A r G"
    unfolding cinv_def
  proof (intro conjI)
    show "\<exists>r. froots m G r" using assms(1) by blast
    show "distinct r" using rg by (simp add: ring_def)
    show "set r \<subseteq> faddr ` set G" using sr by simp
    show "\<forall>i<length A. \<forall>y. A ! i = Some y \<longrightarrow>
        y \<notin> set r \<and> (\<exists>t\<in>set G. faddr t = y \<and> length (kids t) = i)"
      by (simp add: A_def)
    show "\<forall>t\<in>set G. faddr t \<in> set r \<or> (\<exists>i<length A. A ! i = Some (faddr t))"
      using sr by simp
    show "\<forall>t\<in>set G. length (kids t) + length G \<le> length A"
      using lkD lr by (auto simp: A_def intro: add_mono)
    show "length A < 2 ^ 64" using uD N(1) lr by (simp add: A_def)
  qed
  have "length G \<le> n" using N by simp
  from consolidate_for_correct [OF ci this] obtain m1 A1 G1 where
    f: "consolidate_for n m A r = Some (Inr (m1, A1))" "cinv m1 A1 [] G1"
    "fkeys G1 = fkeys G" "set (fal G1) = set (fal G)" "\<forall>a. fn_key (m1 a) = fn_key (m a)"
    by blast
  from f(2) obtain r1 where F1: "froots m1 G1 r1"
    and W1: "\<And>j y. j < length A1 \<Longrightarrow> A1 ! j = Some y \<Longrightarrow>
           (\<exists>t\<in>set G1. faddr t = y \<and> length (kids t) = j)"
    and C1: "\<And>t. t \<in> set G1 \<Longrightarrow> \<exists>j<length A1. A1 ! j = Some (faddr t)"
    unfolding cinv_def by auto
  have "G \<noteq> []" using sr False by auto
  then have "fkeys G1 \<noteq> {#}" using f(3) by (simp add: fkeys_empty)
  then have G1ne: "G1 \<noteq> []" by auto
  have sr1: "set r1 = faddr ` set G1" and D1: "distinct (fal G1)"
    and T1: "\<forall>t\<in>set G1. ftrep m1 t" and H1: "\<forall>t\<in>set G1. theap t"
    using F1 by (simp_all add: froots_def)
  have r1ne: "r1 \<noteq> []" using sr1 G1ne by auto
  then have rg1: "ring m1 r1" using F1 by (simp add: froots_def)
  have ss: "set (somes A1) = set r1"
  proof
    show "set (somes A1) \<subseteq> set r1"
    proof
      fix y assume "y \<in> set (somes A1)"
      then have "Some y \<in> set A1" by (simp add: set_somes)
      then obtain j where "j < length A1" "A1 ! j = Some y" by (auto simp: in_set_conv_nth)
      from W1 [OF this] show "y \<in> set r1" using sr1 by auto
    qed
    show "set r1 \<subseteq> set (somes A1)"
    proof
      fix y assume "y \<in> set r1"
      then obtain t where "t \<in> set G1" "y = faddr t" using sr1 by auto
      with C1 [of t] show "y \<in> set (somes A1)"
        by (auto simp: set_somes in_set_conv_nth)
    qed
  qed
  have ds: "distinct (somes A1)"
  proof (rule distinct_somes)
    fix i j y assume a: "i < length A1" "j < length A1" "A1 ! i = Some y" "A1 ! j = Some y"
    from W1 [OF a(1,3)] obtain t where t: "t \<in> set G1" "faddr t = y" "length (kids t) = i"
      by auto
    from W1 [OF a(2,4)] obtain t' where t': "t' \<in> set G1" "faddr t' = y" "length (kids t') = j"
      by auto
    have "t = t'" using D1 t(1) t'(1) by (rule tree_unique) (simp add: t t')
    then show "i = j" using t t' by simp
  qed
  from rebuild_empty [OF rg1 ss ds] obtain m3 R where
    rb: "consolidate_rebuild A1 None m1 = Inr (Some (hd R), m3)" "ring m3 R"
    "set R = set r1" "\<forall>a\<in>set R. fn_key (m3 (hd R)) \<le> fn_key (m3 a)"
    "mods {} (set r1) m1 m3"
    by blast
  have Rne: "R \<noteq> []" using rb(2) by (simp add: ring_def)
  have cons: "consolidate n mn m = Some (Inr (Some (hd R), m3))"
    using assms(2) False col f(1) rb(1)
    by (simp add: consolidate_def Let_def uA A_def [symmetric])
  have T3: "ftrep m3 t" if "t \<in> set G1" for t
    using T1 D1 rb(5) _ _ _ that
  proof (rule froots_frame)
    show "{} \<inter> set (fal G1) = {}" by simp
    show "set r1 \<subseteq> faddr ` set G1 \<union> {}" using sr1 by simp
    show "{} \<inter> set (fal G1) = {}" by simp
  qed
  have F3: "froots m3 G1 R"
    unfolding froots_def using T3 H1 D1 rb(2,3) sr1 by simp
  have least: "fn_key (m3 (hd R)) \<le> fkey t" if "t \<in> set G1" for t
  proof -
    have "faddr t \<in> set R" using rb(3) sr1 that by simp
    with rb(4) have "fn_key (m3 (hd R)) \<le> fn_key (m3 (faddr t))" by simp
    then show ?thesis using ftrep_key [OF T3 [OF that]] by simp
  qed
  have keys: "\<forall>a. fn_key (m3 a) = fn_key (m a)"
    using f(5) rb(5) by (simp add: mods_def)
  show ?thesis
    using cons F3 Rne least f(3,4) keys
    by (intro exI [of _ "Some (hd R)"] exI [of _ m3] exI [of _ G1] exI [of _ R]) simp
qed

lemma in_fkeys: "x \<in># fkeys G \<Longrightarrow> \<exists>t\<in>set G. x \<in># tkeys t"
  by (auto simp: fkeys_def)

text \<open>
  \<^verbatim>\<open>pop()\<close> on a well-formed, non-empty heap returns a least key and leaves a well-formed
  heap with the other keys.
\<close>

lemma fh_pop_correct:
  fixes w :: "('k::linorder) fworld"
  assumes "finv h w G" "G \<noteq> []" "size (fkeys G) < n"
  shows "\<exists>k h' w' G'. fh_pop n h w = Some (Inr k, h', w') \<and> finv h' w' G'
           \<and> fkeys G = {#k#} + fkeys G' \<and> (\<forall>x\<in>#fkeys G. k \<le> x)"
proof -
  define m where "m = f_nodes w"
  from assms(1) obtain r where F: "froots m G r"
    and mn: "f_min h = (if r = [] then None else Some (hd r))"
    and least: "r \<noteq> [] \<longrightarrow> (\<forall>t\<in>set G. fn_key (m (hd r)) \<le> fkey t)"
    and fresh: "\<forall>a\<in>set (fal G). a < f_next w" and sz: "unat (f_size h) = size (fkeys G)"
    by (auto simp: finv_def m_def)
  from F have T: "\<And>t. t \<in> set G \<Longrightarrow> ftrep m t" and H: "\<And>t. t \<in> set G \<Longrightarrow> theap t"
    and D: "distinct (fal G)" and sr: "set r = faddr ` set G"
    by (auto simp: froots_def)
  have rne: "r \<noteq> []" using sr assms(2) by auto
  then obtain z r' where r: "r = z # r'" by (cases r) auto
  have rg: "ring m (z # r')" using F rne r by (simp add: froots_def)
  have dr: "distinct (z # r')" using rg by (simp add: ring_def)
  have "z \<in> faddr ` set G" using sr r by auto
  then obtain tz where tz: "tz \<in> set G" "faddr tz = z" by auto
  then obtain P Q where G: "G = P @ tz # Q" by (auto dest: split_list)
  define cs where "cs = kids tz"
  define kz where "kz = fkey tz"
  define ca where "ca = map faddr cs"
  have ftz: "ftrep m tz" by (rule T [OF tz(1)])
  have kzm: "fn_key (m z) = kz" using ftrep_key [OF ftz] tz(2) by (simp add: kz_def)
  have tzeq: "tz = FNode z kz cs" using tz(2) by (cases tz) (simp add: kz_def cs_def)
  have hz: "f_min h = Some z" using mn r by simp
  define G2 where "G2 = P @ Q @ cs"
  define r2 where "r2 = r' @ ca"
  have D': "distinct (fal P @ (z # fal cs) @ fal Q)"
    using D G tzeq by (simp add: fal_def)
  have D2: "distinct (fal G2)" using D' by (auto simp: G2_def)
  have zG2: "z \<notin> set (fal G2)" using D' by (auto simp: G2_def)
  have sub2: "set (fal G2) \<subseteq> set (fal G)" using G tzeq by (auto simp: G2_def fal_def)
  have T2: "\<forall>t\<in>set G2. ftrep m t"
    using T G ftz tzeq by (auto simp: G2_def)
  have H2: "\<forall>t\<in>set G2. theap t"
    using H [of tz] H G tzeq by (auto simp: G2_def)
  have dm: "distinct (map faddr G)" using D by (rule distinct_roots)
  have zPQ: "z \<notin> faddr ` (set P \<union> set Q)"
    using dm G tz(2) by auto
  have "set (z # r') = insert z (faddr ` (set P \<union> set Q))"
    using sr r G tz(2) by auto
  then have sr': "set r' = faddr ` (set P \<union> set Q)"
    using dr zPQ by auto
  have sr2: "set r2 = faddr ` set G2"
    using sr' by (auto simp: r2_def G2_def ca_def)
  have ca_desc: "set ca \<subseteq> set (fal (kids tz))"
    by (auto simp: ca_def cs_def dest: faddr_in_fal)
  have ca_r: "set ca \<inter> set (z # r') = {}"
    using root_notin_desc [OF D tz(1)] ca_desc sr r by auto
  have kge: "\<forall>c\<in>set ca. \<not> fn_key (m c) < fn_key (m z)"
  proof
    fix c assume "c \<in> set ca"
    then obtain t where t: "t \<in> set cs" "c = faddr t" by (auto simp: ca_def)
    have "ftrep m t" using ftz tzeq t(1) by auto
    then have "fn_key (m c) = fkey t" using ftrep_key t(2) by simp
    moreover have "kz \<le> fkey t" using H [OF tz(1)] tzeq t(1) by auto
    ultimately show "\<not> fn_key (m c) < fn_key (m z)" using kzm by simp
  qed
  have szz: "Suc (length cs) \<le> size (fkeys G)"
    using deg_plus_len [OF tz(1)] assms(2) by (cases G) (auto simp: cs_def)
  define sp where "sp = (case fn_child (m z) of
                   None \<Rightarrow> Some (Inr (f_min h, m))
                 | Some c \<Rightarrow> pop_splice_loop n (Some c) (f_min h) m)"
  have "\<exists>m1. sp = Some (Inr (Some z, m1)) \<and> ring m1 (z # r' @ ca)
          \<and> mods {} (set (z # r') \<union> set ca) m m1"
  proof (cases cs)
    case Nil
    then have "fn_child (m z) = None" using ftz tzeq by simp
    then have "sp = Some (Inr (Some z, m))" by (simp add: sp_def hz)
    then show ?thesis using rg Nil by (simp add: ca_def)
  next
    case (Cons c cs')
    then have ch: "fn_child (m z) = Some (hd ca)" and rc: "ring m ca"
      using ftz tzeq by (auto simp: ca_def)
    have "length ca \<le> n" using szz assms(3) by (simp add: ca_def)
    from pop_splice_ring [OF rg rc ca_r kge this] obtain m1 where
      "pop_splice_loop n (Some (hd ca)) (Some z) m = Some (Inr (Some z, m1))"
      "ring m1 (z # r' @ ca)" "mods {} (set (z # r') \<union> set ca) m m1"
      by blast
    with ch hz show ?thesis by (simp add: sp_def)
  qed
  then obtain m1 where sp1: "sp = Some (Inr (Some z, m1))" and rg1: "ring m1 (z # r2)"
    and md1: "mods {} (set (z # r') \<union> set ca) m m1"
    by (auto simp: r2_def)
  from pop_unlink_ring [OF rg1] obtain m2 where
    pu: "pop_unlink z m1 = Inr (if r2 = [] then None else Some (hd r2), m2)"
    and rg2: "r2 \<noteq> [] \<longrightarrow> ring m2 r2" and md2: "mods {} (set r2) m1 m2"
    by blast
  have md: "mods {} (insert z (set r2)) m m2"
    by (rule mods_mono [OF mods_trans [OF md1 md2]]) (auto simp: r2_def)
  have T2': "ftrep m2 t" if "t \<in> set G2" for t
    using T2 D2 md _ _ _ that
  proof (rule froots_frame)
    show "{} \<inter> set (fal G2) = {}" by simp
    show "insert z (set r2) \<subseteq> faddr ` set G2 \<union> {z}" using sr2 by auto
    show "{z} \<inter> set (fal G2) = {}" using zG2 by simp
  qed
  have F2: "froots m2 G2 r2"
    unfolding froots_def using T2' H2 D2 sr2 rg2 by simp
  have kk: "fkeys G = {#kz#} + fkeys G2"
    using G tzeq by (simp add: G2_def fkeys_def)
  then have sz2: "size (fkeys G) = Suc (size (fkeys G2))" by simp
  have "size (fkeys G) < 2 ^ 64"
    using sz [symmetric] unsigned_less [of "f_size h", where 'a = nat] by simp
  then have b3: "size (fkeys G2) < 2 ^ 64" using sz2 by simp
  have b4: "size (fkeys G2) < n" using assms(3) sz2 by simp
  from consolidate_correct [OF F2 refl b3 b4] obtain mn3 m3 G3 r3 where
    c: "consolidate n (if r2 = [] then None else Some (hd r2)) m2 = Some (Inr (mn3, m3))"
    "froots m3 G3 r3" "mn3 = (if r3 = [] then None else Some (hd r3))"
    "r3 \<noteq> [] \<longrightarrow> (\<forall>t\<in>set G3. fn_key (m3 (hd r3)) \<le> fkey t)"
    "fkeys G3 = fkeys G2" "set (fal G3) = set (fal G2)"
    "\<forall>a. fn_key (m3 a) = fn_key (m2 a)"
    by blast
  have k3: "fn_key (m3 z) = kz"
    using c(7) md kzm by (simp add: mods_def)
  have pop: "fh_pop n h w = Some (Inr kz, \<lparr>f_min = mn3, f_size = f_size h - 1\<rparr>,
      w\<lparr>f_nodes := m3\<rparr>)"
    using hz sp1 [unfolded sp_def m_def] pu c(1) k3
    by (simp add: fh_pop_def)
  have nz: "f_size h \<noteq> 0" using sz sz2 by auto
  then have "unat (f_size h - 1) = unat (f_size h) - 1" by (rule unat_minus_one)
  then have sz3: "unat (f_size h - 1) = size (fkeys G3)" using sz sz2 c(5) by simp
  have fresh3: "\<forall>a\<in>set (fal G3). a < f_next w"
    using c(6) sub2 fresh by auto
  have inv: "finv \<lparr>f_min = mn3, f_size = f_size h - 1\<rparr> (w\<lparr>f_nodes := m3\<rparr>) G3"
    unfolding finv_def using c(2,3,4) sz3 fresh3
    by (intro conjI exI [of _ r3]) simp_all
  have lo: "\<forall>x\<in>#fkeys G. kz \<le> x"
  proof
    fix x assume "x \<in># fkeys G"
    then obtain t where t: "t \<in> set G" "x \<in># tkeys t" by (auto dest: in_fkeys)
    have "fkey t \<le> x" using H [OF t(1)] t(2) by (rule theap_lower)
    moreover have "kz \<le> fkey t" using least rne t(1) r kzm by simp
    ultimately show "kz \<le> x" by simp
  qed
  show ?thesis using pop inv kk c(5) lo by auto
qed

lemma fh_pop_all_correct:
  fixes w :: "('k::linorder) fworld"
  assumes "finv h w G" "size (fkeys G) < c" "size (fkeys G) < n"
  shows "\<exists>ys h' w'. fh_pop_all n c h w = Some (map Inr ys, h', w') \<and> sorted ys
           \<and> mset ys = fkeys G \<and> fh_size h' = 0"
  using assms
proof (induction c arbitrary: h w G)
  case 0
  then show ?case by simp
next
  case (Suc c)
  from Suc.prems(1) have sz: "unat (f_size h) = size (fkeys G)"
    by (simp add: finv_def)
  show ?case
  proof (cases "G = []")
    case True
    with sz have "f_size h = 0" by (simp add: unat_eq_zero)
    with True show ?thesis
      by (intro exI [of _ "[]"]) (simp add: fh_size_def)
  next
    case False
    then have "size (fkeys G) \<noteq> 0" by (simp add: fkeys_empty)
    with sz have nz: "f_size h \<noteq> 0" by auto
    from fh_pop_correct [OF Suc.prems(1) False Suc.prems(3)] obtain k h1 w1 G1 where
      p: "fh_pop n h w = Some (Inr k, h1, w1)" "finv h1 w1 G1"
      "fkeys G = {#k#} + fkeys G1" "\<forall>x\<in>#fkeys G. k \<le> x"
      by blast
    have "size (fkeys G1) < c" "size (fkeys G1) < n"
      using Suc.prems(2,3) p(3) by simp_all
    from Suc.IH [OF p(2) this] obtain ys h' w' where
      r: "fh_pop_all n c h1 w1 = Some (map Inr ys, h', w')" "sorted ys"
      "mset ys = fkeys G1" "fh_size h' = 0"
      by blast
    have "\<forall>y\<in>set ys. k \<le> y"
      using p(3,4) r(3) by (metis set_mset_mset union_iff)
    with r p nz show ?thesis
      by (intro exI [of _ "k # ys"]) (simp add: fh_size_def)
  qed
qed

lemma fh_pops_sorted:
  fixes ks :: "('k::linorder) list"
  assumes "length ks < 2 ^ 64" "length ks < n" "length ks < c"
  shows "\<exists>xs h w h' w'. fh_insert_list ks fheap_new w0 = Inr (xs, h, w)
           \<and> fh_pop_all n c h w = Some (map Inr (sort ks), h', w') \<and> fh_size h' = 0"
proof -
  have "finv fheap_new w0 []"
    unfolding finv_def by (intro conjI exI [of _ "[]"]) (simp_all add: froots_def fheap_new_def)
  from fh_insert_list_correct [OF this, of ks] assms obtain xs h w G where
    i: "fh_insert_list ks fheap_new w0 = Inr (xs, h, w)" "finv h w G"
    "fkeys G = mset ks"
    by auto
  have "size (fkeys G) < c" "size (fkeys G) < n"
    using assms i(3) by simp_all
  from fh_pop_all_correct [OF i(2) this] obtain ys h' w' where
    p: "fh_pop_all n c h w = Some (map Inr ys, h', w')" "sorted ys" "mset ys = fkeys G"
    "fh_size h' = 0"
    by blast
  have "ys = sort ks"
    using p(2,3) i(3) by (metis properties_for_sort)
  with i(1) p show ?thesis by blast
qed

text \<open>
  \<^verbatim>\<open>cut(x, y)\<close> on a node outside the ring of roots.
\<close>

lemma cut_ring:
  fixes m :: "('k::linorder) fmem"
  assumes "ring m (h # t)" "x \<notin> set (h # t)"
    and "fn_left (m x) = Some xl" "fn_right (m x) = Some xr"
    and "xl \<notin> set (h # t)" "xr \<notin> set (h # t)"
  shows "\<exists>mn' m'. cut x y (Some h) m = Inr (mn', m') \<and> ring m' (h # t @ [x])
           \<and> fn_p (m' x) = None \<and> \<not> fn_mark (m' x)
           \<and> (\<forall>a. a \<noteq> x \<longrightarrow> fn_p (m' a) = fn_p (m a) \<and> fn_mark (m' a) = fn_mark (m a))"
proof -
  define m3 where "m3 =
    (if xr \<noteq> x
     then fn_set_right xl (Some xr) (fn_set_left xr (Some xl) (fn_set_child y (Some xr) m))
     else fn_set_child y None m)"
  define m6 where "m6 = fn_set_mark x False (fn_set_p x None
                          (fn_set_degree y (fn_degree (m3 y) - 1) m3))"
  have c: "cut x y (Some h) m = insert_node (Some x) (Some h) m6"
    using assms(3,4) by (auto simp: cut_def Let_def m6_def m3_def)
  have "ring m6 (h # t)"
    using assms(1)
  proof (rule ring_frame)
    show "\<forall>a\<in>set (h # t). fn_left (m6 a) = fn_left (m a) \<and> fn_right (m6 a) = fn_right (m a)"
      using assms(5,6) by (auto simp: m6_def m3_def)
  qed
  from insert_node_ring [OF this assms(2)] obtain m' where
    i: "insert_node (Some x) (Some h) m6
          = Inr (if fn_key (m6 x) < fn_key (m6 h) then Some x else Some h, m')"
    "ring m' (h # t @ [x])"
    by blast
  have pm: "fn_p (m' a) = fn_p (m6 a)" "fn_mark (m' a) = fn_mark (m6 a)" for a
    using insert_node_p_mark [OF i(1), of a] by simp_all
  have "fn_p (m' x) = None" "\<not> fn_mark (m' x)"
    "\<forall>a. a \<noteq> x \<longrightarrow> fn_p (m' a) = fn_p (m a) \<and> fn_mark (m' a) = fn_mark (m a)"
    by (auto simp: pm m6_def m3_def)
  with c i show ?thesis by auto
qed

section \<open>Sorted extraction\<close>



section \<open>Fibonacci heap: marks\<close>

text \<open>
  Insert 0, 1, 2, 3, 4 and pop: the four nodes left form one tree with root 1, children
  2 and 3, and node 4 below node 3. Decreasing the key of node 4 to 2 cuts it and marks
  node 3. The next pop removes node 1 and moves its children 2 and 3 to the root ring;
  consolidation links node 4 under node 2 and leaves node 3 a root, still marked.
\<close>

theorem fh_pop_leaves_marked_root:
  "(case fh_insert_list [0, 1, 2, 3, 4] fheap_new fworld0 of
      Inl e \<Rightarrow> None
    | Inr (xs, h, w) \<Rightarrow>
        (case fh_pop 8 h w of
           None \<Rightarrow> None
         | Some (r1, h1, w1) \<Rightarrow>
             (case fh_decrease_key 8 (Some 4) 2 h1 w1 of
                None \<Rightarrow> None
              | Some (r2, h2, w2) \<Rightarrow>
                  (case fh_pop 8 h2 w2 of
                     None \<Rightarrow> None
                   | Some (r3, h3, w3) \<Rightarrow>
                       Some (r1, r2, fn_p (f_nodes w2 3), fn_mark (f_nodes w2 3), r3,
                             fh_roots 8 h3 w3, fn_p (f_nodes w3 3),
                             fn_mark (f_nodes w3 3))))))
   = Some (Inr 0, Inr (), Some 1, True, Inr 1, Some [2, 3], None, True)"
  by (simp add: fh_eval)

text \<open>
  C8, as the code has it. A root can be marked (above); the rest holds. Whenever
  \<^verbatim>\<open>cut(x, y)\<close> returns, in any state, it has cleared the parent link and the mark of
  \<open>x\<close>. Called on a node \<open>x\<close> that is outside the ring of roots and whose neighbours
  are outside it, \<^verbatim>\<open>cut\<close> does return, and \<open>x\<close> is then in the ring of roots, as its
  last node. The loop of \<^verbatim>\<open>pop()\<close>, entered at the child pointer of the minimum \<open>z\<close>,
  whose children \<open>cs\<close> form a ring and have keys not below that of \<open>z\<close>, returns when
  its fuel is at least the number of children; every child is then in the ring of roots,
  after the former roots and in the order of the children, the parent link of every child
  is cleared, no other parent link has changed, and every mark is as it was: a marked
  child has become a marked root.
\<close>

theorem fh_cut_clears_mark_pop_keeps_marks:
  fixes m m1 m2 :: "('k::linorder) fmem"
  shows
  "(cut x1 y1 mn1 m1 = Inr (mn1', m1') \<longrightarrow> fn_p (m1' x1) = None \<and> \<not> fn_mark (m1' x1))
   \<and> (ring m (h # t) \<and> x \<notin> set (h # t) \<and> fn_left (m x) = Some xl \<and> fn_right (m x) = Some xr
      \<and> xl \<notin> set (h # t) \<and> xr \<notin> set (h # t)
    \<longrightarrow> (\<exists>mn' m'. cut x y (Some h) m = Inr (mn', m') \<and> ring m' (h # t @ [x])
           \<and> fn_p (m' x) = None \<and> \<not> fn_mark (m' x)))
   \<and> (ring m2 (z # r) \<and> fn_child (m2 z) = Some (hd cs) \<and> ring m2 cs
      \<and> set cs \<inter> set (z # r) = {} \<and> (\<forall>c\<in>set cs. \<not> fn_key (m2 c) < fn_key (m2 z))
      \<and> length cs \<le> n
    \<longrightarrow> (\<exists>m'. pop_splice_loop n (fn_child (m2 z)) (Some z) m2 = Some (Inr (Some z, m'))
           \<and> ring m' (z # r @ cs)
           \<and> (\<forall>c\<in>set cs. fn_p (m' c) = None)
           \<and> (\<forall>a. a \<notin> set cs \<longrightarrow> fn_p (m' a) = fn_p (m2 a))
           \<and> (\<forall>a. fn_mark (m' a) = fn_mark (m2 a))))"
proof (intro conjI impI)
  assume "cut x1 y1 mn1 m1 = Inr (mn1', m1')"
  then show "fn_p (m1' x1) = None" "\<not> fn_mark (m1' x1)"
    by (simp_all add: cut_clears)
next
  assume "ring m (h # t) \<and> x \<notin> set (h # t) \<and> fn_left (m x) = Some xl
      \<and> fn_right (m x) = Some xr \<and> xl \<notin> set (h # t) \<and> xr \<notin> set (h # t)"
  then have a: "ring m (h # t)" "x \<notin> set (h # t)" "fn_left (m x) = Some xl"
    "fn_right (m x) = Some xr" "xl \<notin> set (h # t)" "xr \<notin> set (h # t)"
    by blast+
  from cut_ring [of m h t x xl xr y, OF a]
  show "\<exists>mn' m'. cut x y (Some h) m = Inr (mn', m') \<and> ring m' (h # t @ [x])
           \<and> fn_p (m' x) = None \<and> \<not> fn_mark (m' x)"
    by blast
next
  assume "ring m2 (z # r) \<and> fn_child (m2 z) = Some (hd cs) \<and> ring m2 cs
      \<and> set cs \<inter> set (z # r) = {} \<and> (\<forall>c\<in>set cs. \<not> fn_key (m2 c) < fn_key (m2 z))
      \<and> length cs \<le> n"
  then have a: "ring m2 (z # r)" "ring m2 cs" "set cs \<inter> set (z # r) = {}"
    "\<forall>c\<in>set cs. \<not> fn_key (m2 c) < fn_key (m2 z)" "length cs \<le> n"
    and ch: "fn_child (m2 z) = Some (hd cs)"
    by blast+
  from pop_splice_ring [OF a] obtain m' where
    "pop_splice_loop n (Some (hd cs)) (Some z) m2 = Some (Inr (Some z, m'))"
    "ring m' (z # r @ cs)"
    "\<forall>a. fn_p (m' a) = (if a \<in> set cs then None else fn_p (m2 a))"
    "\<forall>a. fn_mark (m' a) = fn_mark (m2 a)"
    by blast
  then show "\<exists>m'. pop_splice_loop n (fn_child (m2 z)) (Some z) m2 = Some (Inr (Some z, m'))
           \<and> ring m' (z # r @ cs)
           \<and> (\<forall>c\<in>set cs. fn_p (m' c) = None)
           \<and> (\<forall>a. a \<notin> set cs \<longrightarrow> fn_p (m' a) = fn_p (m2 a))
           \<and> (\<forall>a. fn_mark (m' a) = fn_mark (m2 a))"
    unfolding ch by (intro exI [of _ m']) simp
qed

text \<open>
  At the memory \<open>fmem_two_children\<close>: cutting the marked node 2 makes it an unmarked
  root; the loop of \<^verbatim>\<open>pop\<close> moves the children 1 and 2 of node 0 to the roots, both
  without a parent, node 2 still marked.
\<close>

theorem fh_cut_clears_mark_pop_keeps_marks_witness:
  "(ring fmem_two_children (0 # [3]) \<and> 2 \<notin> set (0 # [3::nat])
      \<and> fn_left (fmem_two_children 2) = Some 1 \<and> fn_right (fmem_two_children 2) = Some 1
      \<and> 1 \<notin> set (0 # [3::nat]) \<and> fn_mark (fmem_two_children 2)
      \<and> (\<exists>mn' m'. cut 2 0 (Some 0) fmem_two_children = Inr (mn', m')
            \<and> ring m' (0 # [3] @ [2]) \<and> fn_p (m' 2) = None \<and> \<not> fn_mark (m' 2)))
   \<and> (ring fmem_two_children (0 # [3]) \<and> fn_child (fmem_two_children 0) = Some (hd [1, 2])
      \<and> ring fmem_two_children [1, 2] \<and> set [1, 2] \<inter> set (0 # [3::nat]) = {}
      \<and> \<not> fn_key (fmem_two_children 1) < fn_key (fmem_two_children 0)
      \<and> \<not> fn_key (fmem_two_children 2) < fn_key (fmem_two_children 0)
      \<and> length [1::nat, 2] \<le> 2
      \<and> (\<exists>m'. pop_splice_loop 2 (fn_child (fmem_two_children 0)) (Some 0) fmem_two_children
                 = Some (Inr (Some 0, m'))
            \<and> ring m' (0 # [3] @ [1, 2])
            \<and> fn_p (m' 1) = None \<and> fn_p (m' 2) = None
            \<and> \<not> fn_mark (m' 1) \<and> fn_mark (m' 2)))"
proof -
  have r0: "ring fmem_two_children (0 # [3])"
    by (simp add: ring_def linked_def fmem_two_children_def)
  have r1: "ring fmem_two_children [1, 2]"
    by (simp add: ring_def linked_def fmem_two_children_def)
  have f: "fn_left (fmem_two_children 2) = Some 1" "fn_right (fmem_two_children 2) = Some 1"
    "fn_mark (fmem_two_children 2)" "\<not> fn_mark (fmem_two_children 1)"
    "fn_child (fmem_two_children 0) = Some (hd [1, 2])"
    "\<forall>c\<in>set [1, 2]. \<not> fn_key (fmem_two_children c) < fn_key (fmem_two_children 0)"
    by (simp_all add: fmem_two_children_def)
  note T = fh_cut_clears_mark_pop_keeps_marks
            [where m = fmem_two_children and h = 0 and t = "[3]" and x = 2 and xl = 1
               and xr = 1 and y = 0 and ?m2.0 = fmem_two_children and z = 0 and r = "[3]"
               and cs = "[1, 2]" and n = 2]
  have A: "\<exists>mn' m'. cut 2 0 (Some 0) fmem_two_children = Inr (mn', m')
            \<and> ring m' (0 # [3] @ [2]) \<and> fn_p (m' 2) = None \<and> \<not> fn_mark (m' 2)"
    using T [THEN conjunct2, THEN conjunct1] r0 f by simp
  have "\<exists>m'. pop_splice_loop 2 (fn_child (fmem_two_children 0)) (Some 0) fmem_two_children
                 = Some (Inr (Some 0, m'))
            \<and> ring m' (0 # [3] @ [1, 2])
            \<and> (\<forall>c\<in>set [1, 2]. fn_p (m' c) = None)
            \<and> (\<forall>a. a \<notin> set [1, 2] \<longrightarrow> fn_p (m' a) = fn_p (fmem_two_children a))
            \<and> (\<forall>a. fn_mark (m' a) = fn_mark (fmem_two_children a))"
    using T [THEN conjunct2, THEN conjunct2] r0 r1 f by simp
  then obtain m' where
    s: "pop_splice_loop 2 (fn_child (fmem_two_children 0)) (Some 0) fmem_two_children
                 = Some (Inr (Some 0, m'))"
    "ring m' (0 # [3] @ [1, 2])" "\<forall>c\<in>set [1, 2]. fn_p (m' c) = None"
    "\<forall>a. fn_mark (m' a) = fn_mark (fmem_two_children a)"
    by blast
  have B: "\<exists>m'. pop_splice_loop 2 (fn_child (fmem_two_children 0)) (Some 0) fmem_two_children
                 = Some (Inr (Some 0, m'))
            \<and> ring m' (0 # [3] @ [1, 2])
            \<and> fn_p (m' 1) = None \<and> fn_p (m' 2) = None
            \<and> \<not> fn_mark (m' 1) \<and> fn_mark (m' 2)"
    using s f(3,4) by (intro exI [of _ m']) simp
  show ?thesis
    using r0 r1 f(1,2,3,5,6) A B by simp
qed

end
